theory Spec2Isabelle
  imports Complex_Main "HOL-Library.Finite_Map"
begin

section \<open>Strings of the host language\<close>

text \<open>
  A string of the program is a list of code units; the embedding works with the code
  units below 256, which is where every character the program inspects lives (digits,
  ASCII letters, punctuation, the white space of \<^verbatim>\<open>String.prototype.trim\<close> in that range).
\<close>

definition is_space :: "char \<Rightarrow> bool" where
  "is_space c = (of_char c \<in> {9, 10, 11, 12, 13, 32, 160 :: nat})"

definition is_digit :: "char \<Rightarrow> bool" where
  "is_digit c = (48 \<le> (of_char c :: nat) \<and> (of_char c :: nat) \<le> 57)"

definition js_trim :: "string \<Rightarrow> string" where
  "js_trim s = rev (dropWhile is_space (rev (dropWhile is_space s)))"

section \<open>Webhook verification: \<^verbatim>\<open>app.get("/meta/webhook")\<close> in src/index.ts\<close>

text \<open>
  A query parameter parsed by the framework is absent, a string, a list of strings (a
  repeated parameter) or a nested object. The environment and the query are finite
  tables from names to values.
\<close>

datatype query_value = QString string | QArray "string list" | QObject

record http_response =
  status :: nat
  body :: string

definition VERIFY_TOKEN :: "(string \<times> string) list \<Rightarrow> string" where
  "VERIFY_TOKEN env =
     (case map_of env ''META_VERIFY_TOKEN'' of Some t \<Rightarrow> t
      | None \<Rightarrow> (case map_of env ''WHATSAPP_VERIFY_TOKEN'' of Some t \<Rightarrow> t
         | None \<Rightarrow> (case map_of env ''VERIFY_TOKEN'' of Some t \<Rightarrow> t
            | None \<Rightarrow> '''')))"

definition get_meta_webhook ::
  "(string \<times> string) list \<Rightarrow> (string \<times> query_value) list \<Rightarrow> http_response" where
  "get_meta_webhook env query =
     (let mode = map_of query ''hub.mode'';
          token = map_of query ''hub.verify_token'';
          challenge = map_of query ''hub.challenge''
      in case challenge of
           Some (QString c) \<Rightarrow>
             if mode = Some (QString ''subscribe'') then
               (if VERIFY_TOKEN env = '''' \<or> token \<noteq> Some (QString (VERIFY_TOKEN env))
                then \<lparr>status = 403, body = ''Forbidden''\<rparr>
                else \<lparr>status = 200, body = c\<rparr>)
             else \<lparr>status = 400, body = ''Invalid verification request''\<rparr>
         | _ \<Rightarrow> \<lparr>status = 400, body = ''Invalid verification request''\<rparr>)"

definition example_env :: "(string \<times> string) list" where
  "example_env = [(''META_VERIFY_TOKEN'', ''secret'')]"

definition example_query_no_mode :: "(string \<times> query_value) list" where
  "example_query_no_mode =
     [(''hub.verify_token'', QString ''secret''), (''hub.challenge'', QString ''1158201444'')]"

definition example_query_subscribe :: "(string \<times> query_value) list" where
  "example_query_subscribe =
     [(''hub.mode'', QString ''subscribe''), (''hub.verify_token'', QString ''secret''),
      (''hub.challenge'', QString ''1158201444'')]"

section \<open>Broadcast aggregates: \<^verbatim>\<open>adjustBroadcastAggregates\<close> in src/lib/meta.ts\<close>

definition BROADCAST_SUCCESS_STATUSES :: "string set" where
  "BROADCAST_SUCCESS_STATUSES = {''Sent'', ''Delivered'', ''Read''}"

definition BROADCAST_FAILURE_STATUSES :: "string set" where
  "BROADCAST_FAILURE_STATUSES = {''Failed''}"

text \<open>The store's atomic counter operations, and the data of one broadcast update.\<close>

datatype counter_update = Increment int | Decrement int

record broadcast_update =
  successCount :: "counter_update option"
  failureCount :: "counter_update option"

text \<open>
  The two deltas the function computes once it is past its first guard. A status that
  is null, undefined or the empty string is falsy; \<open>None\<close> stands for null/undefined.
\<close>

definition broadcast_deltas :: "string option \<Rightarrow> string \<Rightarrow> int \<times> int" where
  "broadcast_deltas previousStatus nextStatus =
     (let prevSuccess = (case previousStatus of None \<Rightarrow> False
                         | Some p \<Rightarrow> if p = '''' then False else p \<in> BROADCAST_SUCCESS_STATUSES);
          nextSuccess = (nextStatus \<in> BROADCAST_SUCCESS_STATUSES);
          prevFailure = (case previousStatus of None \<Rightarrow> False
                         | Some p \<Rightarrow> if p = '''' then False else p \<in> BROADCAST_FAILURE_STATUSES);
          nextFailure = (nextStatus \<in> BROADCAST_FAILURE_STATUSES);
          successDelta = (if nextSuccess \<and> \<not> prevSuccess then 0 + 1
                          else if \<not> nextSuccess \<and> prevSuccess then 0 - 1 else 0);
          failureDelta = (if nextFailure \<and> \<not> prevFailure then 0 + 1
                          else if \<not> nextFailure \<and> prevFailure then 0 - 1 else 0)
      in (successDelta, failureDelta))"

definition counter_data :: "int \<Rightarrow> counter_update option" where
  "counter_data delta =
     (if delta > 0 then Some (Increment delta)
      else if delta < 0 then Some (Decrement \<bar>delta\<bar>) else None)"

text \<open>
  The result is the update sent to the store (the broadcast id and the data), or
  \<open>None\<close> when the function returns without issuing one.
\<close>

definition adjustBroadcastAggregates ::
  "string \<Rightarrow> string option \<Rightarrow> string option \<Rightarrow> (string \<times> broadcast_update) option" where
  "adjustBroadcastAggregates broadcastId previousStatus nextStatus =
     (case nextStatus of
        None \<Rightarrow> None
      | Some n \<Rightarrow>
          if n = '''' \<or> previousStatus = nextStatus then None
          else
            (let (successDelta, failureDelta) = broadcast_deltas previousStatus n
             in if successDelta = 0 \<and> failureDelta = 0 then None
                else Some (broadcastId,
                       \<lparr>successCount = counter_data successDelta,
                        failureCount = counter_data failureDelta\<rparr>)))"

text \<open>The net change a counter operation makes to the stored counter.\<close>

fun applied_delta :: "counter_update option \<Rightarrow> int" where
  "applied_delta None = 0"
| "applied_delta (Some (Increment k)) = k"
| "applied_delta (Some (Decrement k)) = - k"

text \<open>Membership of a possibly absent status in a status set.\<close>

definition status_in :: "string option \<Rightarrow> string set \<Rightarrow> bool" where
  "status_in s A = (case s of None \<Rightarrow> False | Some x \<Rightarrow> x \<in> A)"

text \<open>The delta as the specification words it: +1 entering the set, -1 leaving, else 0.\<close>

definition spec_delta :: "string set \<Rightarrow> string option \<Rightarrow> string \<Rightarrow> int" where
  "spec_delta A p n =
     (if n \<in> A \<and> \<not> status_in p A then 1
      else if status_in p A \<and> n \<notin> A then - 1 else 0)"

section \<open>Contact resolution: \<^verbatim>\<open>getOrCreateContactForUser\<close> in src/lib/meta.ts\<close>

definition normalizePhone :: "string option \<Rightarrow> string option" where
  "normalizePhone value =
     (case value of
        None \<Rightarrow> None
      | Some v \<Rightarrow>
          if v = '''' then None
          else (let digits = filter is_digit v
                in if length digits \<noteq> 0 then Some digits else None))"


datatype error =
    Error string | PrismaError string | FlowSanitizationError string | ZodError | TypeError











section \<open>Values of the host language\<close>

text \<open>
  Numbers are the finite ones and the three non-finite values. A value is a primitive,
  an object, or a function or prototype object of the host (\<open>JHost\<close>, reached only through
  inherited properties). An object carries its own named properties; an array is an
  object that also carries its elements.
\<close>

datatype jsnum = Fin rat | NaN | PosInf | NegInf

datatype jsval = JUndefined | JNull | JBool bool | JNum jsnum | JStr string
  | JObject "jsval list option" "(string, jsval) fmap"
  | JHost nat

definition JArr :: "jsval list \<Rightarrow> jsval" where
  "JArr xs = JObject (Some xs) fmempty"

definition JObj :: "(string \<times> jsval) list \<Rightarrow> jsval" where
  "JObj kvs = JObject None (fmap_of_list kvs)"

type_synonym flow_context = "(string, jsval) fmap"

text \<open>
  What the program takes from the host and the embedding does not define: conversions of
  objects and numbers, the properties objects inherit, the JSON parser, the evaluation
  of a condition expression and whether \<^verbatim>\<open>structuredClone\<close> exists. \<open>None\<close> is a thrown
  exception.
\<close>

record host =
  object_to_string :: "jsval \<Rightarrow> string option"
  number_to_string :: "jsnum \<Rightarrow> string"
  string_to_number :: "string \<Rightarrow> jsnum"
  object_to_number :: "jsval \<Rightarrow> jsnum option"
  inherited :: "bool \<Rightarrow> string \<Rightarrow> nat option"
  host_get :: "nat \<Rightarrow> string \<Rightarrow> jsval"
  JSON_parse :: "string \<Rightarrow> jsval option"
  run_expression :: "string \<Rightarrow> flow_context \<Rightarrow> bool option"
  has_structuredClone :: bool

definition is_nullish :: "jsval \<Rightarrow> bool" where
  "is_nullish v = (v = JUndefined \<or> v = JNull)"

definition truthy :: "jsval \<Rightarrow> bool" where
  "truthy v =
     (case v of
        JUndefined \<Rightarrow> False | JNull \<Rightarrow> False | JBool b \<Rightarrow> b
      | JNum n \<Rightarrow> n \<noteq> Fin 0 \<and> n \<noteq> NaN
      | JStr s \<Rightarrow> s \<noteq> ''''
      | _ \<Rightarrow> True)"

definition isArray :: "jsval \<Rightarrow> bool" where
  "isArray v = (case v of JObject (Some xs) m \<Rightarrow> True | _ \<Rightarrow> False)"

definition isPlainObject :: "jsval \<Rightarrow> bool" where
  "isPlainObject v = (case v of JObject None m \<Rightarrow> True | _ \<Rightarrow> False)"

definition elements :: "jsval \<Rightarrow> jsval list" where
  "elements v = (case v of JObject (Some xs) m \<Rightarrow> xs | _ \<Rightarrow> [])"

text \<open>An own property of a value, \<open>JUndefined\<close> when there is none.\<close>

definition own :: "jsval \<Rightarrow> string \<Rightarrow> jsval" where
  "own v k =
     (case v of
        JObject a m \<Rightarrow> (case fmlookup m k of Some x \<Rightarrow> x | None \<Rightarrow> JUndefined)
      | _ \<Rightarrow> JUndefined)"

definition ctx_get :: "flow_context \<Rightarrow> string \<Rightarrow> jsval" where
  "ctx_get c k = (case fmlookup c k of Some x \<Rightarrow> x | None \<Rightarrow> JUndefined)"

text \<open>Assignment to a named property of an object; other values are left as they are.\<close>

definition set_own :: "jsval \<Rightarrow> string \<Rightarrow> jsval \<Rightarrow> jsval" where
  "set_own v k x = (case v of JObject a m \<Rightarrow> JObject a (fmupd k x m) | _ \<Rightarrow> v)"

definition assign_all :: "(string \<times> jsval) list \<Rightarrow> flow_context \<Rightarrow> flow_context" where
  "assign_all kvs c = foldl (\<lambda>acc (k, v). fmupd k v acc) c kvs"

text \<open>\<^verbatim>\<open>String(v)\<close>: fixed by the language on primitives, the host's on numbers and objects.\<close>

definition js_String :: "host \<Rightarrow> jsval \<Rightarrow> error + string" where
  "js_String h v =
     (case v of
        JUndefined \<Rightarrow> Inr ''undefined''
      | JNull \<Rightarrow> Inr ''null''
      | JBool b \<Rightarrow> Inr (if b then ''true'' else ''false'')
      | JNum n \<Rightarrow> Inr (number_to_string h n)
      | JStr s \<Rightarrow> Inr s
      | _ \<Rightarrow> (case object_to_string h v of
                Some s \<Rightarrow> Inr s
              | None \<Rightarrow> Inl TypeError))"

text \<open>\<^verbatim>\<open>Number(v)\<close>.\<close>

definition js_Number :: "host \<Rightarrow> jsval \<Rightarrow> error + jsnum" where
  "js_Number h v =
     (case v of
        JUndefined \<Rightarrow> Inr NaN
      | JNull \<Rightarrow> Inr (Fin 0)
      | JBool b \<Rightarrow> Inr (Fin (if b then 1 else 0))
      | JNum n \<Rightarrow> Inr n
      | JStr s \<Rightarrow> Inr (string_to_number h s)
      | _ \<Rightarrow> (case object_to_number h v of
                Some n \<Rightarrow> Inr n
              | None \<Rightarrow> Inl TypeError))"

definition isFinite :: "jsnum \<Rightarrow> bool" where
  "isFinite n = (case n of Fin r \<Rightarrow> True | _ \<Rightarrow> False)"

text \<open>Lower-casing, on the code units below 256.\<close>

definition lower_char :: "char \<Rightarrow> char" where
  "lower_char c =
     (let n = (of_char c :: nat)
      in if (65 \<le> n \<and> n \<le> 90) \<or> (192 \<le> n \<and> n \<le> 222 \<and> n \<noteq> 215)
         then char_of (n + 32) else c)"

definition toLowerCase :: "string \<Rightarrow> string" where
  "toLowerCase s = map lower_char s"

text \<open>Running a list of fallible steps, stopping at the first error.\<close>

fun traverse :: "('a \<Rightarrow> error + 'b) \<Rightarrow> 'a list \<Rightarrow> error + 'b list" where
  "traverse f [] = Inr []"
| "traverse f (x # xs) =
     (case f x of
        Inl e \<Rightarrow> Inl e
      | Inr y \<Rightarrow> (case traverse f xs of Inl e \<Rightarrow> Inl e | Inr ys \<Rightarrow> Inr (y # ys)))"

section \<open>Context bookkeeping of the executor: src/lib/flow-executor.ts\<close>

text \<open>
  The context bag of a session is an object. The helpers below are the closures of
  \<^verbatim>\<open>executeFlow\<close> over that object; each takes the context and returns it updated.
  The time stamp of \<^verbatim>\<open>nowIso()\<close> is an argument.
\<close>

definition HISTORY_LIMIT :: nat where
  "HISTORY_LIMIT = 50"

definition toLc :: "string option \<Rightarrow> string" where
  "toLc s = toLowerCase (js_trim (case s of None \<Rightarrow> '''' | Some t \<Rightarrow> t))"

definition ensureMeta :: "flow_context \<Rightarrow> flow_context" where
  "ensureMeta c =
     (let meta = ctx_get c ''_meta''
      in if \<not> truthy meta \<or> \<not> (case meta of JObject a m \<Rightarrow> True | _ \<Rightarrow> False)
         then fmupd ''_meta'' (JObj [(''history'', JArr [])]) c
         else if \<not> isArray (own meta ''history'')
         then fmupd ''_meta'' (set_own meta ''history'' (JArr [])) c
         else c)"

text \<open>
  \<^verbatim>\<open>push\<close> followed by \<^verbatim>\<open>splice(0, length - HISTORY_LIMIT)\<close> on an array: the elements
  change, the other properties of the array stay.
\<close>

definition push_capped :: "jsval \<Rightarrow> jsval \<Rightarrow> jsval" where
  "push_capped arr entry =
     (case arr of
        JObject (Some xs) m \<Rightarrow>
          (let ys = xs @ [entry]
           in JObject (Some (if length ys > HISTORY_LIMIT
                             then drop (length ys - HISTORY_LIMIT) ys else ys)) m)
      | _ \<Rightarrow> arr)"

definition pushHistory :: "jsval \<Rightarrow> flow_context \<Rightarrow> flow_context" where
  "pushHistory entry c =
     (let c1 = ensureMeta c;
          meta = ctx_get c1 ''_meta''
      in fmupd ''_meta'' (set_own meta ''history'' (push_capped (own meta ''history'') entry)) c1)"

record inbound_payload =
  in_text :: string
  in_type :: jsval
  in_raw :: jsval
  in_optionIndex :: jsval
  in_matchedOption :: jsval
  in_interactiveId :: jsval
  in_interactiveType :: jsval
  in_interactiveTitle :: jsval
  in_image :: jsval
  in_video :: jsval
  in_audio :: jsval
  in_document :: jsval
  in_sticker :: jsval

text \<open>The pairs whose value is not \<^verbatim>\<open>undefined\<close>, and the pairs whose value is truthy.\<close>

definition defined_entries :: "(string \<times> jsval) list \<Rightarrow> (string \<times> jsval) list" where
  "defined_entries kvs = filter (\<lambda>(k, v). v \<noteq> JUndefined) kvs"

definition truthy_entries :: "(string \<times> jsval) list \<Rightarrow> (string \<times> jsval) list" where
  "truthy_entries kvs = filter (\<lambda>(k, v). truthy v) kvs"

text \<open>The history entry of an inbound event (the first part of \<^verbatim>\<open>recordInbound\<close>).\<close>

definition inbound_entry :: "string \<Rightarrow> inbound_payload \<Rightarrow> jsval" where
  "inbound_entry ts payload =
     (let historyPayload =
            JObj ((''text'', JStr (in_text payload)) #
              defined_entries
                [(''optionIndex'', in_optionIndex payload),
                 (''matchedOption'', in_matchedOption payload),
                 (''interactiveId'', in_interactiveId payload),
                 (''interactiveType'', in_interactiveType payload),
                 (''interactiveTitle'', in_interactiveTitle payload),
                 (''image'', in_image payload),
                 (''video'', in_video payload),
                 (''audio'', in_audio payload),
                 (''document'', in_document payload),
                 (''sticker'', in_sticker payload)])
      in JObj [(''direction'', JStr ''in''),
               (''type'', if is_nullish (in_type payload) then JStr ''text'' else in_type payload),
               (''timestamp'', JStr ts), (''payload'', historyPayload)])"

text \<open>The denormalized fields an inbound event sets (the middle part of \<^verbatim>\<open>recordInbound\<close>).\<close>

definition inbound_fields :: "string \<Rightarrow> inbound_payload \<Rightarrow> flow_context \<Rightarrow> flow_context" where
  "inbound_fields ts payload c1 =
     (let txt = in_text payload;
          trimmed = js_trim txt;
          normalized = toLc (Some trimmed);
          ty = (if is_nullish (in_type payload) then JStr ''text'' else in_type payload);
          c2 = assign_all
                 [(''lastInteractionAt'', JStr ts),
                  (''lastInboundAt'', JStr ts),
                  (''lastInboundType'', ty),
                  (''lastUserMessage'', JStr txt),
                  (''lastUserMessageTrimmed'', JStr trimmed),
                  (''lastUserMessageNormalized'', JStr normalized),
                  (''lastUserMessageAt'', JStr ts),
                  (''input'', JStr txt),
                  (''lastInput'', JStr txt),
                  (''lastInputTrimmed'', JStr trimmed),
                  (''lastInputNormalized'', JStr normalized)] c1;
          c3 = assign_all
                 (defined_entries
                    [(''lastUserMessageRaw'', in_raw payload),
                     (''lastInteractiveId'', in_interactiveId payload),
                     (''lastInteractiveType'', in_interactiveType payload),
                     (''lastInteractiveTitle'', in_interactiveTitle payload)]) c2;
          mediaPayload =
            truthy_entries
              [(''image'', in_image payload), (''video'', in_video payload),
               (''audio'', in_audio payload), (''document'', in_document payload),
               (''sticker'', in_sticker payload)];
          c4 = assign_all
                 [(''lastUserMedia'',
                   if length mediaPayload \<noteq> 0 then JObj mediaPayload else JNull)] c3;
          c5 = assign_all
                 (if in_optionIndex payload \<noteq> JUndefined
                  then [(''lastSelectedOptionIndex'', in_optionIndex payload)]
                  else if in_matchedOption payload = JNull
                  then [(''lastSelectedOptionIndex'', JNull)]
                  else []) c4
      in assign_all
           (if in_matchedOption payload \<noteq> JUndefined
            then [(''lastSelectedOption'', in_matchedOption payload),
                  (''lastOptionMatched'', JBool (\<not> is_nullish (in_matchedOption payload)))]
            else []) c5)"

text \<open>The update of \<^verbatim>\<open>context.inputHistory\<close> and of \<^verbatim>\<open>context.messageCount\<close>.\<close>

definition push_input :: "string \<Rightarrow> string \<Rightarrow> flow_context \<Rightarrow> flow_context" where
  "push_input ts txt c =
     (let previousInputs =
            (if isArray (ctx_get c ''inputHistory'')
             then JArr (elements (ctx_get c ''inputHistory'')) else JArr [])
      in fmupd ''inputHistory''
           (push_capped previousInputs (JObj [(''text'', JStr txt), (''timestamp'', JStr ts)])) c)"

definition bump_messageCount :: "flow_context \<Rightarrow> flow_context" where
  "bump_messageCount c =
     (let count = (case ctx_get c ''messageCount'' of JNum (Fin r) \<Rightarrow> r | _ \<Rightarrow> 0)
      in fmupd ''messageCount'' (JNum (Fin (count + 1))) c)"

definition recordInbound :: "string \<Rightarrow> inbound_payload \<Rightarrow> flow_context \<Rightarrow> flow_context" where
  "recordInbound ts payload c =
     bump_messageCount
       (push_input ts (in_text payload)
          (inbound_fields ts payload (pushHistory (inbound_entry ts payload) c)))"

text \<open>
  \<^verbatim>\<open>recordOutbound(type, payload)\<close>; the payload is the object literal its caller builds.
  First the two conversions to strings, which may throw.
\<close>

definition outbound_text :: "host \<Rightarrow> (string, jsval) fmap \<Rightarrow> error + string option" where
  "outbound_text h payload =
     (let textValue = ctx_get payload ''text''
      in if textValue \<noteq> JUndefined
         then (case textValue of
                 JStr s \<Rightarrow> Inr (Some s)
               | _ \<Rightarrow> map_sum id Some (js_String h textValue))
         else Inr None)"

definition outbound_options :: "host \<Rightarrow> (string, jsval) fmap \<Rightarrow> error + string list option" where
  "outbound_options h payload =
     (let optionsValue = ctx_get payload ''options''
      in if isArray optionsValue
         then map_sum id Some (traverse (js_String h) (elements optionsValue))
         else Inr None)"

text \<open>The context fields set before the history entry is pushed, in the order of the code.\<close>

definition outbound_before_updates ::
  "string \<Rightarrow> (string, jsval) fmap \<Rightarrow> string option \<Rightarrow> string list option
     \<Rightarrow> (string \<times> jsval) list" where
  "outbound_before_updates ty payload textString normalizedOptions =
     (let optionsValue = ctx_get payload ''options'';
          flowBody = ctx_get payload ''body'';
          template = ctx_get payload ''template''
      in (case textString of None \<Rightarrow> [] | Some s \<Rightarrow> [(''lastBotMessage'', JStr s)])
         @ (case normalizedOptions of
              Some opts \<Rightarrow> if ty = ''options''
                            then [(''lastBotOptions'', JArr (map JStr opts))] else []
            | None \<Rightarrow> if optionsValue = JUndefined \<and> ty = ''options''
                       then [(''lastBotOptions'', JArr [])] else [])
         @ (if ty = ''flow''
            then (case flowBody of
                    JStr b \<Rightarrow> if js_trim b \<noteq> '''' then [(''lastBotMessage'', JStr b)] else []
                  | _ \<Rightarrow> [])
            else [])
         @ (if ty = ''template'' \<and> truthy template
            then (case own template ''name'' of
                    JStr nm \<Rightarrow> if nm \<noteq> '''' then [(''lastBotMessage'', JStr nm)] else []
                  | _ \<Rightarrow> [])
            else []))"

definition outbound_before ::
  "string \<Rightarrow> (string, jsval) fmap \<Rightarrow> string option \<Rightarrow> string list option
     \<Rightarrow> flow_context \<Rightarrow> flow_context" where
  "outbound_before ty payload textString normalizedOptions c =
     assign_all (outbound_before_updates ty payload textString normalizedOptions) c"

text \<open>The history entry of an outbound event.\<close>

definition outbound_entry ::
  "string \<Rightarrow> string \<Rightarrow> (string, jsval) fmap \<Rightarrow> string option \<Rightarrow> string list option \<Rightarrow> jsval" where
  "outbound_entry ts ty payload textString normalizedOptions =
     (let optionsValue = ctx_get payload ''options'';
          template = ctx_get payload ''template'';
          hp1 = (case textString of None \<Rightarrow> [] | Some s \<Rightarrow> [(''text'', JStr s)]);
          hp2 = (case normalizedOptions of
                   Some opts \<Rightarrow> hp1 @ [(''options'', JArr (map JStr opts))]
                 | None \<Rightarrow> if optionsValue \<noteq> JUndefined
                            then hp1 @ [(''options'', optionsValue)] else hp1);
          hp3 = hp2 @ defined_entries
                  [(''mediaType'', ctx_get payload ''mediaType''),
                   (''url'', ctx_get payload ''url''),
                   (''caption'', ctx_get payload ''caption'')];
          hp4 = (if ty = ''flow'' then hp3 @ [(''flow'', JObject None payload)] else hp3);
          hp5 = (if ty = ''template''
                 then hp4
                   @ (if truthy template then [(''template'', template)] else [])
                   @ truthy_entries
                       [(''parameters'', ctx_get payload ''parameters''),
                        (''components'', ctx_get payload ''components'')]
                 else hp4)
      in JObj [(''direction'', JStr ''out''), (''type'', JStr ty),
               (''timestamp'', JStr ts), (''payload'', JObj hp5)])"

text \<open>The context fields set after the history entry is pushed.\<close>

definition outbound_after ::
  "string \<Rightarrow> string \<Rightarrow> (string, jsval) fmap \<Rightarrow> flow_context \<Rightarrow> flow_context" where
  "outbound_after ts ty payload c5 =
     (let c6 = assign_all
                 [(''lastInteractionAt'', JStr ts),
                  (''lastOutboundAt'', JStr ts),
                  (''lastBotMessageAt'', JStr ts),
                  (''lastBotMessageType'', JStr ty)] c5
      in assign_all
           (if ty = ''media''
            then [(''lastBotMedia'',
                   JObj (filter (\<lambda>(k, v). case v of JStr s \<Rightarrow> True | _ \<Rightarrow> False)
                           [(''mediaType'', ctx_get payload ''mediaType''),
                            (''url'', ctx_get payload ''url''),
                            (''caption'', ctx_get payload ''caption'')]))]
            else []) c6)"

definition recordOutbound ::
  "host \<Rightarrow> string \<Rightarrow> string \<Rightarrow> (string, jsval) fmap \<Rightarrow> flow_context \<Rightarrow> error + flow_context" where
  "recordOutbound h ts ty payload c =
     (case outbound_text h payload of
        Inl e \<Rightarrow> Inl e
      | Inr textString \<Rightarrow>
          (case outbound_options h payload of
             Inl e \<Rightarrow> Inl e
           | Inr normalizedOptions \<Rightarrow>
               Inr (outbound_after ts ty payload
                      (pushHistory (outbound_entry ts ty payload textString normalizedOptions)
                         (outbound_before ty payload textString normalizedOptions c)))))"

text \<open>A sequence of recording operations, as one execution performs them.\<close>

datatype record_op =
    Inbound string inbound_payload
  | Outbound string string "(string, jsval) fmap"

fun apply_ops :: "host \<Rightarrow> record_op list \<Rightarrow> flow_context \<Rightarrow> error + flow_context" where
  "apply_ops h [] c = Inr c"
| "apply_ops h (Inbound ts p # ops) c = apply_ops h ops (recordInbound ts p c)"
| "apply_ops h (Outbound ts ty p # ops) c =
     (case recordOutbound h ts ty p c of Inl e \<Rightarrow> Inl e | Inr c' \<Rightarrow> apply_ops h ops c')"

text \<open>The two lists the bookkeeping caps.\<close>

definition meta_history :: "flow_context \<Rightarrow> jsval list" where
  "meta_history c = elements (own (ctx_get c ''_meta'') ''history'')"

definition input_history :: "flow_context \<Rightarrow> jsval list" where
  "input_history c = elements (ctx_get c ''inputHistory'')"

definition is_inbound :: "record_op \<Rightarrow> bool" where
  "is_inbound op = (case op of Inbound ts p \<Rightarrow> True | _ \<Rightarrow> False)"

text \<open>The newest \<open>n\<close> entries of a list: the oldest ones are dropped first.\<close>

definition keep_newest :: "nat \<Rightarrow> 'a list \<Rightarrow> 'a list" where
  "keep_newest n xs = drop (length xs - n) xs"

text \<open>A host and an inbound event for the examples.\<close>

definition example_host :: host where
  "example_host =
     \<lparr>object_to_string = (\<lambda>v. Some ''[object Object]''),
      number_to_string = (\<lambda>n. ''0''),
      string_to_number = (\<lambda>s. NaN),
      object_to_number = (\<lambda>v. Some NaN),
      inherited = (\<lambda>a k. None),
      host_get = (\<lambda>n k. JUndefined),
      JSON_parse = (\<lambda>s. None),
      run_expression = (\<lambda>e c. None),
      has_structuredClone = True\<rparr>"

definition example_inbound :: inbound_payload where
  "example_inbound =
     \<lparr>in_text = ''Hola'', in_type = JStr ''text'', in_raw = JStr ''Hola'',
      in_optionIndex = JUndefined, in_matchedOption = JUndefined,
      in_interactiveId = JNull, in_interactiveType = JNull, in_interactiveTitle = JNull,
      in_image = JNull, in_video = JNull, in_audio = JNull, in_document = JNull,
      in_sticker = JNull\<rparr>"

definition example_ops :: "record_op list" where
  "example_ops =
     [Inbound ''2024-01-01T00:00:00.000Z'' example_inbound,
      Outbound ''2024-01-01T00:00:01.000Z'' ''text'' (fmap_of_list [(''text'', JStr ''Hi'')])]"

section \<open>Condition nodes: \<^verbatim>\<open>safeEvalBool\<close> and \<^verbatim>\<open>edgeForCondition\<close> in src/lib/flow-executor.ts\<close>

text \<open>
  The test \<^verbatim>\<open>/[;{}]|process|global|window|document|require|import|\beval\b/g.test(expr)\<close>
  holds when one of the alternatives matches at some position of the expression. A word
  character is one of \<^verbatim>\<open>[A-Za-z0-9_]\<close>; \<^verbatim>\<open>\b\<close> next to the word character \<^verbatim>\<open>e\<close> or \<^verbatim>\<open>l\<close> holds
  when the neighbour on the other side is missing or is not a word character.
\<close>

definition is_word_char :: "char \<Rightarrow> bool" where
  "is_word_char c =
     (let n = (of_char c :: nat)
      in (65 \<le> n \<and> n \<le> 90) \<or> (97 \<le> n \<and> n \<le> 122) \<or> (48 \<le> n \<and> n \<le> 57) \<or> n = 95)"

definition unsafe_words :: "string list" where
  "unsafe_words = [''process'', ''global'', ''window'', ''document'', ''require'', ''import'']"

definition starts_with :: "string \<Rightarrow> string \<Rightarrow> bool" where
  "starts_with t s = (take (length t) s = t)"

text \<open>One of the alternatives matches at the start of \<open>s\<close>; \<open>prev\<close> is the character before.\<close>

definition unsafe_at :: "char option \<Rightarrow> string \<Rightarrow> bool" where
  "unsafe_at prev s =
     (case s of
        [] \<Rightarrow> False
      | c # cs \<Rightarrow>
          c \<in> set '';{}''
          \<or> list_ex (\<lambda>t. starts_with t s) unsafe_words
          \<or> (starts_with ''eval'' s
               \<and> (case prev of None \<Rightarrow> True | Some p \<Rightarrow> \<not> is_word_char p)
               \<and> (case drop 4 s of [] \<Rightarrow> True | n # _ \<Rightarrow> \<not> is_word_char n)))"

fun unsafe_scan :: "char option \<Rightarrow> string \<Rightarrow> bool" where
  "unsafe_scan prev [] = False"
| "unsafe_scan prev (c # cs) = (unsafe_at prev (c # cs) \<or> unsafe_scan (Some c) cs)"

definition has_unsafe_token :: "string \<Rightarrow> bool" where
  "has_unsafe_token expr = unsafe_scan None expr"

text \<open>
  The evaluation of an expression that passed the test is the host's:
  \<^verbatim>\<open>new Function("context", `return !!(${expr})`)\<close> applied to a copy of the context.
\<close>

definition safeEvalBool :: "host \<Rightarrow> string \<Rightarrow> flow_context \<Rightarrow> error + bool" where
  "safeEvalBool h expr ctx =
     (if has_unsafe_token expr then Inl (Error ''Unsafe expression'')
      else (case run_expression h expr ctx of
              None \<Rightarrow> Inl (Error ''expression evaluation failed'')
            | Some b \<Rightarrow> Inr b))"

text \<open>Nodes and edges of a sanitized flow definition, as the executor reads them.\<close>

datatype node_type =
    Trigger | Message | Options | Delay | Condition | Api | Assign | Media
  | WhatsappFlow | Handoff | Goto | EndNode

record flow_node =
  node_id :: string
  node_type :: node_type
  node_data :: jsval

record flow_edge =
  edge_id :: string
  edge_source :: string
  edge_target :: string
  sourceHandle :: jsval
  targetHandle :: jsval

text \<open>\<^verbatim>\<open>outgoingBySource.get(sourceId) ?? []\<close>: the edges of a source, in the order of the definition.\<close>

definition outgoing :: "flow_edge list \<Rightarrow> string \<Rightarrow> flow_edge list" where
  "outgoing edges sourceId =
     filter (\<lambda>e. edge_source e \<noteq> '''' \<and> edge_target e \<noteq> '''' \<and> edge_source e = sourceId) edges"

definition chooseFirstEdge :: "flow_edge list \<Rightarrow> string \<Rightarrow> flow_edge option" where
  "chooseFirstEdge edges sourceId =
     (case outgoing edges sourceId of [] \<Rightarrow> None | e # _ \<Rightarrow> Some e)"

definition edgeForCondition :: "flow_edge list \<Rightarrow> string \<Rightarrow> bool \<Rightarrow> flow_edge option" where
  "edgeForCondition edges sourceId res =
     find (\<lambda>e. sourceHandle e = JStr (if res then ''true'' else ''false'')) (outgoing edges sourceId)"

definition edgeForOption :: "flow_edge list \<Rightarrow> string \<Rightarrow> string \<Rightarrow> flow_edge option" where
  "edgeForOption edges sourceId handleId =
     find (\<lambda>e. sourceHandle e = JStr handleId) (outgoing edges sourceId)"

text \<open>
  The \<^verbatim>\<open>condition\<close> case of the main loop: the result of the condition and the id of the
  next node, or the error thrown by the conversion of the expression to a string.
\<close>

definition condition_step ::
  "host \<Rightarrow> flow_edge list \<Rightarrow> flow_node \<Rightarrow> flow_context \<Rightarrow> error + (bool \<times> string option)" where
  "condition_step h edges currentNode ctx =
     (let expression = own (node_data currentNode) ''expression''
      in case js_String h (if is_nullish expression then JStr ''false'' else expression) of
           Inl e \<Rightarrow> Inl e
         | Inr expr \<Rightarrow>
             (let res = (case safeEvalBool h expr ctx of Inl e \<Rightarrow> False | Inr b \<Rightarrow> b)
              in Inr (res, map_option edge_target
                             (edgeForCondition edges (node_id currentNode) res))))"






section \<open>Template interpolation: \<^verbatim>\<open>getFromPath\<close> and \<^verbatim>\<open>tpl\<close> in src/lib/flow-executor.ts\<close>

text \<open>
  Reading a property \<^verbatim>\<open>v[key]\<close>. An array has its elements under their canonical decimal
  indices and its \<^verbatim>\<open>length\<close>; after the own properties come the inherited ones, which are
  functions or prototype objects of the host.
\<close>

definition decimal :: "string \<Rightarrow> nat" where
  "decimal s = foldl (\<lambda>n c. 10 * n + (of_char c - 48)) 0 s"

definition array_index :: "string \<Rightarrow> nat option" where
  "array_index k =
     (if k = ''0'' then Some 0
      else if k \<noteq> '''' \<and> list_all is_digit k \<and> hd k \<noteq> CHR ''0'' then Some (decimal k)
      else None)"

definition array_own :: "jsval list \<Rightarrow> string \<Rightarrow> jsval option" where
  "array_own xs k =
     (if k = ''length'' then Some (JNum (Fin (of_nat (length xs))))
      else (case array_index k of
              Some i \<Rightarrow> if i < length xs then Some (xs ! i) else None
            | None \<Rightarrow> None))"

definition js_get :: "host \<Rightarrow> jsval \<Rightarrow> string \<Rightarrow> jsval" where
  "js_get h v k =
     (case v of
        JObject a m \<Rightarrow>
          (case (case a of Some xs \<Rightarrow> array_own xs k | None \<Rightarrow> None) of
             Some x \<Rightarrow> x
           | None \<Rightarrow>
               (case fmlookup m k of
                  Some x \<Rightarrow> x
                | None \<Rightarrow> (case inherited h (a \<noteq> None) k of
                             Some n \<Rightarrow> JHost n | None \<Rightarrow> JUndefined)))
      | JHost n \<Rightarrow> host_get h n k
      | _ \<Rightarrow> JUndefined)"

text \<open>\<^verbatim>\<open>path.split(".")\<close>: the pieces between the dots; the empty string gives one empty piece.\<close>

fun split_dot_from :: "string \<Rightarrow> string \<Rightarrow> string list" where
  "split_dot_from cur [] = [cur]"
| "split_dot_from cur (c # cs) =
     (if c = CHR ''.'' then cur # split_dot_from [] cs else split_dot_from (cur @ [c]) cs)"

definition split_dot :: "string \<Rightarrow> string list" where
  "split_dot path = split_dot_from [] path"

text \<open>The callback of the \<^verbatim>\<open>reduce\<close> in \<^verbatim>\<open>getFromPath\<close>, and \<^verbatim>\<open>getFromPath\<close>.\<close>

definition path_step :: "host \<Rightarrow> jsval \<Rightarrow> string \<Rightarrow> jsval" where
  "path_step h acc key =
     (if acc = JNull \<or> acc = JUndefined
         \<or> \<not> (case acc of JObject a m \<Rightarrow> True | JHost n \<Rightarrow> True | _ \<Rightarrow> False)
      then JUndefined
      else js_get h acc key)"

definition getFromPath :: "host \<Rightarrow> jsval \<Rightarrow> string \<Rightarrow> jsval" where
  "getFromPath h obj path = foldl (path_step h) obj (split_dot path)"

text \<open>
  The pattern \<^verbatim>\<open>/\{\{\s*([\w.[\]0-9]+)\s*\}\}/g\<close>. White space, the characters of the key
  and the closing brace exclude one another, so the greedy match is the only one: after
  the two opening braces skip the white space, take the longest run of key characters,
  skip the white space, and require the two closing braces. The result is the key and the
  text after the match.
\<close>

definition is_path_char :: "char \<Rightarrow> bool" where
  "is_path_char c = (is_word_char c \<or> c \<in> set ''.[]'')"

definition match_placeholder :: "string \<Rightarrow> (string \<times> string) option" where
  "match_placeholder s =
     (case s of
        c1 # c2 # r \<Rightarrow>
          if c1 = CHR ''{'' \<and> c2 = CHR ''{'' then
            (let r1 = dropWhile is_space r;
                 key = takeWhile is_path_char r1;
                 r2 = dropWhile is_path_char r1;
                 r3 = dropWhile is_space r2
             in if key \<noteq> [] \<and> starts_with ''}}'' r3 then Some (key, drop 2 r3) else None)
          else None
      | _ \<Rightarrow> None)"

text \<open>
  \<^verbatim>\<open>s.replace(pattern, f)\<close>: the matches are replaced from left to right, the search going on
  after each match; an exception of the callback ends the replacement.
\<close>

function replace_placeholders :: "(string \<Rightarrow> error + string) \<Rightarrow> string \<Rightarrow> error + string" where
  "replace_placeholders f [] = Inr []"
| "replace_placeholders f (c # cs) =
     (case match_placeholder (c # cs) of
        Some (key, rest) \<Rightarrow>
          (case f key of
             Inl e \<Rightarrow> Inl e
           | Inr r \<Rightarrow> (case replace_placeholders f rest of
                         Inl e \<Rightarrow> Inl e | Inr out \<Rightarrow> Inr (r @ out)))
      | None \<Rightarrow>
          (case replace_placeholders f cs of Inl e \<Rightarrow> Inl e | Inr out \<Rightarrow> Inr (c # out)))"
  by pat_completeness auto
termination
proof (relation "measure (\<lambda>(f, s). length s)")
  show "wf (measure (\<lambda>(f, s). length s))" by simp
next
  fix f :: "string \<Rightarrow> error + string" and c cs x2 key rest
  assume m: "match_placeholder (c # cs) = Some x2" and x: "(key, rest) = x2"
  from m x obtain r where cs: "c # cs = CHR ''{'' # CHR ''{'' # r"
    and rest: "rest = drop 2 (dropWhile is_space (dropWhile is_path_char (dropWhile is_space r)))"
    by (auto simp: match_placeholder_def Let_def split: list.splits if_splits)
  have "length (dropWhile is_space (dropWhile is_path_char (dropWhile is_space r))) \<le> length r"
    by (meson length_dropWhile_le order_trans)
  then have "length rest \<le> length r"
    unfolding rest by simp
  also have "length r < length (c # cs)"
    unfolding cs by simp
  finally have "length rest < length (c # cs)" .
  then show "((f, rest), (f, c # cs)) \<in> measure (\<lambda>(f, s). length s)" by simp
next
  fix f :: "string \<Rightarrow> error + string" and c cs
  show "((f, cs), (f, c # cs)) \<in> measure (\<lambda>(f, s). length s)" by simp
qed

text \<open>The callback of \<^verbatim>\<open>tpl\<close>, and \<^verbatim>\<open>tpl\<close> itself; \<open>None\<close> is an absent argument.\<close>

definition render :: "host \<Rightarrow> flow_context \<Rightarrow> string \<Rightarrow> error + string" where
  "render h ctx key =
     (let wrapped = getFromPath h (JObject None (fmupd ''context'' (JObject None ctx) fmempty)) key;
          v = (if is_nullish wrapped then getFromPath h (JObject None ctx) key else wrapped)
      in if is_nullish v then Inr '''' else js_String h v)"

definition tpl :: "host \<Rightarrow> flow_context \<Rightarrow> string option \<Rightarrow> error + string" where
  "tpl h ctx s = replace_placeholders (render h ctx) (case s of None \<Rightarrow> '''' | Some t \<Rightarrow> t)"

definition example_context :: flow_context where
  "example_context =
     fmap_of_list
       [(''lastUserMessage'', JStr ''Hola''),
        (''apiResult'', JObj [(''items'', JArr [JObj [(''name'', JStr ''Ana'')]])])]"

text \<open>
  The statement of the interpolation. A placeholder is \<^verbatim>\<open>{{\<close>, a path with optional white
  space on both sides, and \<^verbatim>\<open>}}\<close>; the path is a non-empty run of word characters, dots and
  brackets. A text starts with a placeholder when one of its prefixes is a placeholder.
\<close>

definition placeholder_path :: "string \<Rightarrow> string" where
  "placeholder_path occ = js_trim (take (length occ - 4) (drop 2 occ))"

definition is_placeholder :: "string \<Rightarrow> bool" where
  "is_placeholder occ =
     (4 \<le> length occ \<and> take 2 occ = ''{{'' \<and> drop (length occ - 2) occ = ''}}''
      \<and> placeholder_path occ \<noteq> '''' \<and> list_all is_path_char (placeholder_path occ))"

definition starts_placeholder :: "string \<Rightarrow> bool" where
  "starts_placeholder s = list_ex (\<lambda>n. is_placeholder (take n s)) [0..<Suc (length s)]"

text \<open>
  The property \<open>k\<close> of a value: of an object its own entry under the key \<open>k\<close>; of an array
  the element whose index is written \<open>k\<close> in decimal, the length under \<^verbatim>\<open>length\<close>, or its own
  entry; failing these the property inherited from the host, if there is one. A primitive,
  null and undefined have no property.
\<close>

fun decimal_string :: "nat \<Rightarrow> string" where
  "decimal_string n =
     (if n < 10 then [char_of (48 + n)]
      else decimal_string (n div 10) @ [char_of (48 + n mod 10)])"

declare decimal_string.simps [simp del]

definition inherited_property :: "host \<Rightarrow> bool \<Rightarrow> string \<Rightarrow> jsval" where
  "inherited_property h is_array k =
     (case inherited h is_array k of Some n \<Rightarrow> JHost n | None \<Rightarrow> JUndefined)"

definition property_of :: "host \<Rightarrow> jsval \<Rightarrow> string \<Rightarrow> jsval" where
  "property_of h v k =
     (case v of
        JObject None m \<Rightarrow>
          (case fmlookup m k of Some x \<Rightarrow> x | None \<Rightarrow> inherited_property h False k)
      | JObject (Some xs) m \<Rightarrow>
          (case find (\<lambda>i. decimal_string i = k) [0..<length xs] of
             Some i \<Rightarrow> xs ! i
           | None \<Rightarrow>
               if k = ''length'' then JNum (Fin (of_nat (length xs)))
               else (case fmlookup m k of Some x \<Rightarrow> x | None \<Rightarrow> inherited_property h True k))
      | JHost n \<Rightarrow> host_get h n k
      | _ \<Rightarrow> JUndefined)"

section \<open>Sending a message: \<^verbatim>\<open>sendMessage\<close> and \<^verbatim>\<open>addRecipientToAllowList\<close> in src/lib/meta.ts\<close>

text \<open>
  The store and the network are a world of scripted answers: the answer to the n-th user
  lookup, to the n-th POST to the messages endpoint and to the n-th POST to an allow-list
  endpoint. The calls made so far are counted in the state, which also logs every message
  posted with its destination; the JSON body of a post is a function of these two and has
  no influence on what follows.
\<close>

text \<open>
  The message payloads, typed as \<^verbatim>\<open>SendMessagePayload\<close> declares them; \<open>None\<close> is a field
  that is undefined or null, which the code allows for with \<^verbatim>\<open>?.\<close> and \<^verbatim>\<open>??\<close>.
\<close>

record flow_payload =
  flow_name :: "string option"
  flow_id :: "string option"
  flow_token :: "string option"
  flow_version :: "string option"
  flow_header :: "string option"
  flow_body :: "string option"
  flow_footer :: "string option"
  flow_cta :: "string option"

record template_component =
  component_type :: string
  component_subType :: "string option"
  component_index :: "jsnum option"
  component_parameters :: "string list option"

record template_payload =
  template_name :: "string option"
  template_language :: "string option"
  template_components :: "template_component list option"

datatype send_message =
    TextMsg string
  | MediaMsg string "string option" "string option" "string option"
  | OptionsMsg string "string list"
  | ListMsg string string "(string \<times> (string \<times> string) list) list"
  | FlowMsg "flow_payload option"
  | TemplateMsg "template_payload option"

record user_credentials =
  metaAccessToken :: "string option"
  metaPhoneNumberId :: "string option"

record http_reply =
  reply_ok :: bool
  reply_status :: nat
  reply_raw :: string
  reply_statusText :: string
  error_code :: "nat option"
  error_user_msg :: "string option"
  error_message :: "string option"
  reply_message_id :: "string option"

datatype fetch_result = Reply http_reply | AbortError | Threw string

record world =
  find_user :: "nat \<Rightarrow> user_credentials option"
  post_messages :: "nat \<Rightarrow> fetch_result"
  post_allow_list :: "nat \<Rightarrow> fetch_result"

record calls =
  lookups :: nat
  sends :: nat
  enrollments :: nat
  allow_list_posts :: nat
  sent :: "(string \<times> send_message) list"

datatype send_result = Success "string option" | Failure "nat option" "string option"

datatype allow_list_result = Allowed | NotAllowed "nat option" "string option"

definition RECIPIENT_NOT_ALLOWED_ERROR_CODE :: nat where
  "RECIPIENT_NOT_ALLOWED_ERROR_CODE = 131030"

definition js_includes :: "string \<Rightarrow> string \<Rightarrow> bool" where
  "js_includes s t = list_ex (\<lambda>i. take (length t) (drop i s) = t) [0..<Suc (length s)]"

text \<open>\<^verbatim>\<open>a?.trim() || b\<close> on optional strings: the first one that is present and not blank.\<close>

definition trimmed_or :: "string option \<Rightarrow> string option \<Rightarrow> string option" where
  "trimmed_or a b =
     (case a of Some s \<Rightarrow> if js_trim s \<noteq> '''' then Some (js_trim s) else b | None \<Rightarrow> b)"

definition nonempty_or :: "string \<Rightarrow> string \<Rightarrow> string" where
  "nonempty_or a b = (if a \<noteq> '''' then a else b)"

text \<open>
  The loop of \<^verbatim>\<open>addRecipientToAllowList\<close> over its candidate paths. An abort is thrown on
  to the outer handler, which answers with a time-out failure; another exception is kept
  as the last error and the next path is tried.
\<close>

fun try_allow_list_paths ::
  "world \<Rightarrow> string list \<Rightarrow> allow_list_result option \<Rightarrow> calls \<Rightarrow> allow_list_result \<times> calls" where
  "try_allow_list_paths w [] lastError k =
     (case lastError of
        Some e \<Rightarrow> (e, k)
      | None \<Rightarrow> (NotAllowed None (Some ''Meta did not accept any allow list endpoints''), k))"
| "try_allow_list_paths w (path # paths) lastError k =
     (let k1 = k\<lparr>allow_list_posts := Suc (allow_list_posts k)\<rparr>
      in case post_allow_list w (allow_list_posts k) of
           AbortError \<Rightarrow>
             (NotAllowed None
                (Some ''Request to Meta timed out while registering the recipient''), k1)
         | Threw msg \<Rightarrow> try_allow_list_paths w paths (Some (NotAllowed None (Some msg))) k1
         | Reply r \<Rightarrow>
             if \<not> reply_ok r then
               (let message =
                      (case trimmed_or (error_user_msg r) (trimmed_or (error_message r) None) of
                         Some m \<Rightarrow> m
                       | None \<Rightarrow>
                           nonempty_or (reply_raw r)
                             (nonempty_or (reply_statusText r)
                                ''Failed to add phone number to WhatsApp test allow list''));
                    normalizedMessage = toLowerCase message;
                    isFallbackCandidate =
                      ((reply_status r = 400 \<or> reply_status r = 404)
                       \<and> (js_includes normalizedMessage ''unknown path components''
                            \<or> js_includes normalizedMessage ''unsupported post request''))
                in if isFallbackCandidate
                   then try_allow_list_paths w paths
                          (Some (NotAllowed (Some (reply_status r)) (Some message))) k1
                   else (NotAllowed (Some (reply_status r)) (Some message), k1))
             else (Allowed, k1))"

definition addRecipientToAllowList :: "world \<Rightarrow> calls \<Rightarrow> allow_list_result \<times> calls" where
  "addRecipientToAllowList w k =
     try_allow_list_paths w [''recipients'', ''registered_whatsapp_users''] None
       (k\<lparr>enrollments := Suc (enrollments k)\<rparr>)"

text \<open>
  The checks of the message that return before anything is posted. \<^verbatim>\<open>x?.f?.trim()\<close> is the
  trimmed field, or undefined when the object or the field is missing; \<^verbatim>\<open>!v\<close> holds of
  undefined and of the empty string.
\<close>

definition optional_trim :: "'a option \<Rightarrow> ('a \<Rightarrow> string option) \<Rightarrow> string option" where
  "optional_trim x f = (case x of None \<Rightarrow> None | Some y \<Rightarrow> map_option js_trim (f y))"

definition falsy :: "string option \<Rightarrow> bool" where
  "falsy v = (v = None \<or> v = Some '''')"

definition validate_message :: "send_message \<Rightarrow> send_result option" where
  "validate_message message =
     (case message of
        MediaMsg mediaType mid url caption \<Rightarrow>
          if falsy mid \<and> falsy url
          then Some (Failure (Some 400) (Some ''Media message must have either an id or a url''))
          else None
      | FlowMsg flow \<Rightarrow>
          if falsy (optional_trim flow flow_id) \<or> falsy (optional_trim flow flow_token)
          then Some (Failure (Some 400) (Some ''Missing WhatsApp Flow identifiers''))
          else None
      | TemplateMsg template \<Rightarrow>
          if falsy (optional_trim template template_name)
             \<or> falsy (optional_trim template template_language)
          then Some (Failure (Some 400) (Some ''Missing template name or language''))
          else None
      | _ \<Rightarrow> None)"

text \<open>The failure built from a reply that is not ok and does not lead to an enrollment.\<close>

definition reply_failure :: "http_reply \<Rightarrow> send_result" where
  "reply_failure r =
     (let graphMessage = (case error_user_msg r of Some m \<Rightarrow> Some m | None \<Rightarrow> error_message r);
          fallback = nonempty_or (reply_raw r)
                       (nonempty_or (reply_statusText r) ''Meta API request failed'');
          errorMessage = (case graphMessage of
                            Some m \<Rightarrow> if length (js_trim m) \<noteq> 0 then m else fallback
                          | None \<Rightarrow> fallback);
          lowerMessage = toLowerCase errorMessage;
          isAccessTokenError =
            (reply_status r = 401
             \<or> ((reply_status r = 400 \<or> reply_status r = 403)
                 \<and> (js_includes lowerMessage ''access token''
                      \<or> js_includes lowerMessage ''session has expired'')))
      in Failure (Some (reply_status r))
           (Some (if isAccessTokenError
                  then ''Meta access token expired. Please reconnect WhatsApp in Settings.''
                  else errorMessage)))"

text \<open>
  One pass through the body of \<^verbatim>\<open>sendMessage\<close>: it ends with a result, or at the recursive
  call, with the normalized destination the call is made with.
\<close>

datatype send_pass = Done send_result | Retry string

definition send_pass :: "world \<Rightarrow> calls \<Rightarrow> string \<Rightarrow> send_message \<Rightarrow> bool \<Rightarrow> send_pass \<times> calls" where
  "send_pass w k dest message allowListAttempted =
     (case normalizePhone (Some dest) of
        None \<Rightarrow> (Done (Failure (Some 400) (Some ''Invalid destination phone number'')), k)
      | Some normalizedTo \<Rightarrow>
          (let user = find_user w (lookups k);
               k1 = k\<lparr>lookups := Suc (lookups k)\<rparr>;
               accessToken = (case user of None \<Rightarrow> None
                              | Some u \<Rightarrow> map_option js_trim (metaAccessToken u));
               phoneNumberId = (case user of None \<Rightarrow> None
                                | Some u \<Rightarrow> map_option js_trim (metaPhoneNumberId u))
           in if accessToken = None \<or> accessToken = Some '''' \<or> phoneNumberId = None
                 \<or> phoneNumberId = Some ''''
              then (Done (Failure None (Some ''Missing Meta API credentials'')), k1)
              else
                (case validate_message message of
                   Some failure \<Rightarrow> (Done failure, k1)
                 | None \<Rightarrow>
                     (let k2 = k1\<lparr>sends := Suc (sends k1),
                                   sent := sent k1 @ [(normalizedTo, message)]\<rparr>
                      in case post_messages w (sends k1) of
                           AbortError \<Rightarrow>
                             (Done (Failure None (Some ''Request to Meta timed out'')), k2)
                         | Threw msg \<Rightarrow> (Done (Failure None (Some msg)), k2)
                         | Reply r \<Rightarrow>
                             if \<not> reply_ok r then
                               (if reply_status r = 400
                                   \<and> error_code r = Some RECIPIENT_NOT_ALLOWED_ERROR_CODE
                                   \<and> \<not> allowListAttempted
                                then
                                  (case addRecipientToAllowList w k2 of
                                     (Allowed, k3) \<Rightarrow> (Retry normalizedTo, k3)
                                   | (NotAllowed st err, k3) \<Rightarrow>
                                       (Done (Failure
                                          (Some (case st of Some s \<Rightarrow> s | None \<Rightarrow> reply_status r))
                                          (Some (case err of
                                                   Some e \<Rightarrow> e
                                                 | None \<Rightarrow> ''Meta rejected the number because it is not in the WhatsApp test allow list. Please add it manually from the Meta Developer Dashboard.''))),
                                        k3))
                                else (Done (reply_failure r), k2))
                             else (Done (Success (reply_message_id r)), k2)))))"

text \<open>
  \<^verbatim>\<open>sendMessage\<close>: the recursive call is made with the normalized destination, the same
  message and \<^verbatim>\<open>allowListAttempted: true\<close>.
\<close>

function sendMessage ::
  "world \<Rightarrow> calls \<Rightarrow> string \<Rightarrow> send_message \<Rightarrow> bool \<Rightarrow> send_result \<times> calls" where
  "sendMessage w k dest message allowListAttempted =
     (case send_pass w k dest message allowListAttempted of
        (Done result, k') \<Rightarrow> (result, k')
      | (Retry normalizedTo, k') \<Rightarrow> sendMessage w k' normalizedTo message True)"
  by pat_completeness auto
termination
proof (relation "measure (\<lambda>(w, k, dest, message, attempted). if attempted then 0 else Suc 0)")
  show "wf (measure (\<lambda>(w, k, dest, message, attempted). if attempted then 0 else Suc 0))"
    by simp
next
  fix w k dest message allowListAttempted x y normalizedTo
  assume pass: "(x, y) = send_pass w k dest message allowListAttempted" "x = Retry normalizedTo"
  have "\<not> allowListAttempted"
  proof
    assume "allowListAttempted"
    then have "fst (send_pass w k dest message allowListAttempted) \<noteq> Retry normalizedTo"
      by (auto simp: send_pass_def Let_def split: option.splits fetch_result.splits)
    with pass show False by (metis fst_conv)
  qed
  then show "((w, y, normalizedTo, message, True), (w, k, dest, message, allowListAttempted))
      \<in> measure (\<lambda>(w, k, dest, message, attempted). if attempted then 0 else Suc 0)"
    by simp
qed

declare sendMessage.simps [simp del]

text \<open>
  The user record carries both credentials: an access token and a phone number id that
  are not blank.
\<close>

definition has_credentials :: "user_credentials option \<Rightarrow> bool" where
  "has_credentials user =
     (case user of
        None \<Rightarrow> False
      | Some u \<Rightarrow>
          (case metaAccessToken u of Some a \<Rightarrow> js_trim a \<noteq> '''' | None \<Rightarrow> False)
          \<and> (case metaPhoneNumberId u of Some p \<Rightarrow> js_trim p \<noteq> '''' | None \<Rightarrow> False))"

text \<open>The result of a pass that posts the message and does not enroll, from the answer.\<close>

definition post_result :: "fetch_result \<Rightarrow> send_result" where
  "post_result answer =
     (case answer of
        Reply r \<Rightarrow> if reply_ok r then Success (reply_message_id r) else reply_failure r
      | AbortError \<Rightarrow> Failure None (Some ''Request to Meta timed out'')
      | Threw msg \<Rightarrow> Failure None (Some msg))"

definition initial_calls :: calls where
  "initial_calls = \<lparr>lookups = 0, sends = 0, enrollments = 0, allow_list_posts = 0, sent = []\<rparr>"

definition not_allowed_reply :: http_reply where
  "not_allowed_reply =
     \<lparr>reply_ok = False, reply_status = 400, reply_raw = '''', reply_statusText = ''Bad Request'',
      error_code = Some 131030, error_user_msg = None,
      error_message = Some ''Recipient phone number not in allowed list'',
      reply_message_id = None\<rparr>"

definition ok_reply :: http_reply where
  "ok_reply =
     \<lparr>reply_ok = True, reply_status = 200, reply_raw = '''', reply_statusText = ''OK'',
      error_code = None, error_user_msg = None, error_message = None,
      reply_message_id = Some ''wamid.1''\<rparr>"

text \<open>
  A world in which every post to the messages endpoint is refused with code 131030 and
  every enrollment succeeds, and the world of the recovery scenario, in which the second
  post succeeds.
\<close>

definition stubborn_world :: world where
  "stubborn_world =
     \<lparr>find_user = (\<lambda>n. Some \<lparr>metaAccessToken = Some ''token'', metaPhoneNumberId = Some ''123''\<rparr>),
      post_messages = (\<lambda>n. Reply not_allowed_reply),
      post_allow_list = (\<lambda>n. Reply ok_reply)\<rparr>"

definition recovery_world :: world where
  "recovery_world =
     \<lparr>find_user = (\<lambda>n. Some \<lparr>metaAccessToken = Some ''token'', metaPhoneNumberId = Some ''123''\<rparr>),
      post_messages = (\<lambda>n. if n = 0 then Reply not_allowed_reply else Reply ok_reply),
      post_allow_list = (\<lambda>n. Reply ok_reply)\<rparr>"

section \<open>The main loop of \<^verbatim>\<open>executeFlow\<close> in src/lib/flow-executor.ts\<close>

text \<open>
  The session row of the store, and \<^verbatim>\<open>updateSession\<close>, which writes the fields its
  argument defines. In a patch, \<open>None\<close> is a field left out; for the current node,
  \<open>Some None\<close> writes null.
\<close>

datatype session_status = Active | Paused | Completed | Errored

record session =
  sess_status :: session_status
  sess_currentNodeId :: "string option"
  sess_context :: flow_context

record session_patch =
  patch_status :: "session_status option"
  patch_currentNodeId :: "string option option"
  patch_context :: "flow_context option"

definition updateSession :: "session_patch \<Rightarrow> session \<Rightarrow> session" where
  "updateSession p s =
     \<lparr>sess_status = (case patch_status p of None \<Rightarrow> sess_status s | Some st \<Rightarrow> st),
      sess_currentNodeId =
        (case patch_currentNodeId p of None \<Rightarrow> sess_currentNodeId s | Some n \<Rightarrow> n),
      sess_context = (case patch_context p of None \<Rightarrow> sess_context s | Some c \<Rightarrow> c)\<rparr>"

definition SAFE_MAX_STEPS :: nat where
  "SAFE_MAX_STEPS = 500"

text \<open>\<^verbatim>\<open>nodeById\<close>: a map built from the list of nodes, in which a later node replaces an earlier one of the same id.\<close>

definition nodeById :: "flow_node list \<Rightarrow> string \<Rightarrow> flow_node option" where
  "nodeById nodes i = find (\<lambda>n. node_id n = i) (rev nodes)"

text \<open>
  What a node does besides choosing the next node (interpolating, sending through the
  callback, waiting, calling an API, writing the context) is taken from the environment:
  \<open>node_effect\<close> gives, for the number of the step, the node and the context, the context
  after the node and the exception thrown, if any. \<open>exec_host\<close> evaluates the conditions.
\<close>

record exec_env =
  exec_host :: host
  node_effect :: "nat \<Rightarrow> flow_node \<Rightarrow> flow_context \<Rightarrow> error option \<times> flow_context"

text \<open>
  The \<^verbatim>\<open>switch\<close> on the node type ends at its \<^verbatim>\<open>break\<close>, with \<^verbatim>\<open>nextNodeId\<close> possibly set; or
  with a \<^verbatim>\<open>return\<close> after the session was written (an options or handoff node pauses, an end
  node completes and clears the current node); or with an exception.
\<close>

datatype switch_result =
    Break jsval flow_context
  | Return session_status "string option option" flow_context
  | Throw error flow_context

definition run_switch ::
  "exec_env \<Rightarrow> flow_edge list \<Rightarrow> nat \<Rightarrow> flow_node \<Rightarrow> flow_context \<Rightarrow> switch_result" where
  "run_switch env edges n currentNode ctx =
     (case node_type currentNode of
        Trigger \<Rightarrow> Break JUndefined ctx
      | Condition \<Rightarrow>
          (case condition_step (exec_host env) edges currentNode ctx of
             Inl e \<Rightarrow> Throw e ctx
           | Inr (res, nxt) \<Rightarrow> Break (case nxt of None \<Rightarrow> JUndefined | Some t \<Rightarrow> JStr t) ctx)
      | Goto \<Rightarrow> Break (own (node_data currentNode) ''targetNodeId'') ctx
      | Options \<Rightarrow>
          (case node_effect env n currentNode ctx of
             (Some e, c) \<Rightarrow> Throw e c | (None, c) \<Rightarrow> Return Paused None c)
      | Handoff \<Rightarrow>
          (case node_effect env n currentNode ctx of
             (Some e, c) \<Rightarrow> Throw e c | (None, c) \<Rightarrow> Return Paused None c)
      | EndNode \<Rightarrow>
          (case node_effect env n currentNode ctx of
             (Some e, c) \<Rightarrow> Throw e c | (None, c) \<Rightarrow> Return Completed (Some None) c)
      | _ \<Rightarrow>
          (case node_effect env n currentNode ctx of
             (Some e, c) \<Rightarrow> Throw e c | (None, c) \<Rightarrow> Break JUndefined c))"

text \<open>
  The result of the loop: the session as last written, whether the function returned or
  threw the exception on, and the ids of the nodes it executed, in order (the \<^verbatim>\<open>visited\<close>
  set).
\<close>

datatype exec_end = Returned | Rethrown error

record exec_result =
  ended :: exec_end
  final_session :: session
  executed :: "string list"

function main_loop ::
  "exec_env \<Rightarrow> flow_node list \<Rightarrow> flow_edge list \<Rightarrow> flow_node option \<Rightarrow> nat \<Rightarrow> string list
     \<Rightarrow> session \<Rightarrow> flow_context \<Rightarrow> exec_result" where
  "main_loop env nodes edges currentNode steps visited sess ctx =
     (case currentNode of
        None \<Rightarrow> \<lparr>ended = Returned, final_session = sess, executed = visited\<rparr>
      | Some node \<Rightarrow>
          if steps > SAFE_MAX_STEPS then
            \<lparr>ended = Returned,
             final_session = updateSession
               \<lparr>patch_status = Some Errored, patch_currentNodeId = None, patch_context = Some ctx\<rparr> sess,
             executed = visited\<rparr>
          else if node_id node \<in> set visited then
            \<lparr>ended = Returned,
             final_session = updateSession
               \<lparr>patch_status = Some Errored, patch_currentNodeId = None, patch_context = Some ctx\<rparr> sess,
             executed = visited\<rparr>
          else
            (let visited' = visited @ [node_id node];
                 sess1 = updateSession
                   \<lparr>patch_status = None, patch_currentNodeId = Some (Some (node_id node)),
                    patch_context = Some ctx\<rparr> sess
             in case run_switch env edges steps node ctx of
                  Throw e c \<Rightarrow>
                    \<lparr>ended = Rethrown e,
                     final_session = updateSession
                       \<lparr>patch_status = Some Errored, patch_currentNodeId = None,
                        patch_context = Some c\<rparr> sess1,
                     executed = visited'\<rparr>
                | Return st nid c \<Rightarrow>
                    \<lparr>ended = Returned,
                     final_session = updateSession
                       \<lparr>patch_status = Some st, patch_currentNodeId = nid, patch_context = Some c\<rparr>
                       sess1,
                     executed = visited'\<rparr>
                | Break next c \<Rightarrow>
                    (let nextNodeId =
                           (if \<not> truthy next \<and> node_type node \<noteq> Condition
                            then (case chooseFirstEdge edges (node_id node) of
                                    None \<Rightarrow> JUndefined | Some e \<Rightarrow> JStr (edge_target e))
                            else next)
                     in if \<not> truthy nextNodeId then
                          \<lparr>ended = Returned,
                           final_session = updateSession
                             \<lparr>patch_status = Some Completed, patch_currentNodeId = Some None,
                              patch_context = Some c\<rparr> sess1,
                           executed = visited'\<rparr>
                        else
                          (case (case nextNodeId of JStr i \<Rightarrow> nodeById nodes i | _ \<Rightarrow> None) of
                             None \<Rightarrow>
                               \<lparr>ended = Returned,
                                final_session = updateSession
                                  \<lparr>patch_status = Some Errored, patch_currentNodeId = None,
                                   patch_context = Some c\<rparr> sess1,
                                executed = visited'\<rparr>
                           | Some nxt \<Rightarrow>
                               main_loop env nodes edges (Some nxt) (Suc steps) visited'
                                 (updateSession
                                    \<lparr>patch_status = None, patch_currentNodeId = None,
                                     patch_context = Some c\<rparr> sess1)
                                 c))))"
  by pat_completeness auto
termination
  by (relation "measure (\<lambda>(env, nodes, edges, cur, steps, visited, sess, ctx). Suc SAFE_MAX_STEPS - steps)")
     auto

declare main_loop.simps [simp del]

text \<open>
  A flow that is one chain of \<open>n\<close> trigger nodes, each linked to the next, an environment
  without side effects, and a new session.
\<close>

definition chain_id :: "nat \<Rightarrow> string" where
  "chain_id i = replicate (Suc i) CHR ''n''"

definition chain_node :: "nat \<Rightarrow> flow_node" where
  "chain_node i = \<lparr>node_id = chain_id i, node_type = Trigger, node_data = JObject None fmempty\<rparr>"

definition chain_edge :: "nat \<Rightarrow> flow_edge" where
  "chain_edge i =
     \<lparr>edge_id = CHR ''e'' # chain_id i, edge_source = chain_id i, edge_target = chain_id (Suc i),
      sourceHandle = JUndefined, targetHandle = JUndefined\<rparr>"

definition chain_nodes :: "nat \<Rightarrow> flow_node list" where
  "chain_nodes n = map chain_node [0..<n]"

definition chain_edges :: "nat \<Rightarrow> flow_edge list" where
  "chain_edges n = map chain_edge [0..<n - 1]"

definition quiet_env :: exec_env where
  "quiet_env = \<lparr>exec_host = example_host, node_effect = (\<lambda>n node c. (None, c))\<rparr>"

definition new_session :: session where
  "new_session = \<lparr>sess_status = Active, sess_currentNodeId = None, sess_context = fmempty\<rparr>"

section \<open>Flow-definition sanitization: src/lib/flow-schema.ts\<close>

text \<open>
  The schemas are those of the validation library, which is not part of src/; they are
  written after its documented behaviour. A schema applied to a value gives the parsed
  value or an issue; the library goes on after an issue and reports the issues at
  the end, while an exception of a conversion leaves the parse at once. An object schema
  accepts plain objects only; it parses the keys of its shape in order and keeps a key in
  its output when the input has the key or the parsed value is defined.
\<close>

datatype 'a parsed = Valid 'a | Invalid | Thrown error

definition flowNodeTypes :: "string list" where
  "flowNodeTypes =
     [''trigger'', ''message'', ''options'', ''delay'', ''condition'', ''api'', ''assign'',
      ''media'', ''whatsapp_flow'', ''handoff'', ''goto'', ''end'']"

text \<open>The status of a list of parses: the first exception, else an issue if there is one.\<close>

fun merge_parsed :: "'a parsed list \<Rightarrow> 'a list parsed" where
  "merge_parsed [] = Valid []"
| "merge_parsed (Thrown e # rs) = Thrown e"
| "merge_parsed (Invalid # rs) =
     (case merge_parsed rs of Thrown e \<Rightarrow> Thrown e | _ \<Rightarrow> Invalid)"
| "merge_parsed (Valid v # rs) =
     (case merge_parsed rs of Thrown e \<Rightarrow> Thrown e | Invalid \<Rightarrow> Invalid
      | Valid vs \<Rightarrow> Valid (v # vs))"

text \<open>\<^verbatim>\<open>z.string().min(1)\<close>, \<^verbatim>\<open>z.enum(flowNodeTypes)\<close>, \<^verbatim>\<open>z.union([z.string(), z.null()]).optional()\<close>.\<close>

definition string_min1 :: "jsval \<Rightarrow> jsval parsed" where
  "string_min1 v = (case v of JStr s \<Rightarrow> if length s \<ge> 1 then Valid v else Invalid | _ \<Rightarrow> Invalid)"

definition node_type_enum :: "jsval \<Rightarrow> jsval parsed" where
  "node_type_enum v =
     (case v of JStr s \<Rightarrow> if s \<in> set flowNodeTypes then Valid v else Invalid | _ \<Rightarrow> Invalid)"

definition handle_schema :: "jsval \<Rightarrow> jsval parsed" where
  "handle_schema v =
     (case v of JUndefined \<Rightarrow> Valid v | JStr s \<Rightarrow> Valid v | JNull \<Rightarrow> Valid v | _ \<Rightarrow> Invalid)"

text \<open>
  \<^verbatim>\<open>coordinateSchema = z.coerce.number().finite().catch(0)\<close>, made optional: the input is
  converted with \<^verbatim>\<open>Number\<close>; a result that is not a finite number is replaced by 0.
\<close>

definition coordinateSchema :: "host \<Rightarrow> jsval \<Rightarrow> jsval parsed" where
  "coordinateSchema h v =
     (case js_Number h v of
        Inl e \<Rightarrow> Thrown e
      | Inr n \<Rightarrow> Valid (JNum (if isFinite n then n else Fin 0)))"

definition optional_coordinate :: "host \<Rightarrow> jsval \<Rightarrow> jsval parsed" where
  "optional_coordinate h v = (if v = JUndefined then Valid JUndefined else coordinateSchema h v)"

text \<open>The entries an object schema writes: those whose key the input has or whose value is defined.\<close>

definition kept_entries :: "(string, jsval) fmap \<Rightarrow> (string \<times> jsval) list \<Rightarrow> (string \<times> jsval) list" where
  "kept_entries m kvs = filter (\<lambda>(k, v). fmlookup m k \<noteq> None \<or> v \<noteq> JUndefined) kvs"

text \<open>The schema of \<^verbatim>\<open>position\<close>: optional, an object, unknown keys stripped.\<close>

definition position_schema :: "host \<Rightarrow> jsval \<Rightarrow> jsval parsed" where
  "position_schema h v =
     (if v = JUndefined then Valid JUndefined
      else (case v of
              JObject None pm \<Rightarrow>
                (case merge_parsed [optional_coordinate h (ctx_get pm ''x''),
                                    optional_coordinate h (ctx_get pm ''y'')] of
                   Thrown e \<Rightarrow> Thrown e
                 | Invalid \<Rightarrow> Invalid
                 | Valid vs \<Rightarrow>
                     Valid (JObject None
                       (assign_all (kept_entries pm (zip [''x'', ''y''] vs)) fmempty)))
            | _ \<Rightarrow> Invalid))"

text \<open>\<^verbatim>\<open>FlowNodeSchemaInternal\<close> and \<^verbatim>\<open>FlowEdgeSchemaInternal\<close>: unknown keys pass through.\<close>

definition FlowNodeSchemaInternal :: "host \<Rightarrow> jsval \<Rightarrow> jsval parsed" where
  "FlowNodeSchemaInternal h v =
     (case v of
        JObject None m \<Rightarrow>
          (case merge_parsed [string_min1 (ctx_get m ''id''),
                              node_type_enum (ctx_get m ''type''),
                              position_schema h (ctx_get m ''position''),
                              Valid (ctx_get m ''data'')] of
             Thrown e \<Rightarrow> Thrown e
           | Invalid \<Rightarrow> Invalid
           | Valid vs \<Rightarrow>
               Valid (JObject None
                 (assign_all (kept_entries m (zip [''id'', ''type'', ''position'', ''data''] vs)) m)))
      | _ \<Rightarrow> Invalid)"

definition FlowEdgeSchemaInternal :: "jsval \<Rightarrow> jsval parsed" where
  "FlowEdgeSchemaInternal v =
     (case v of
        JObject None m \<Rightarrow>
          (case merge_parsed [string_min1 (ctx_get m ''id''),
                              string_min1 (ctx_get m ''source''),
                              string_min1 (ctx_get m ''target''),
                              handle_schema (ctx_get m ''sourceHandle''),
                              handle_schema (ctx_get m ''targetHandle'')] of
             Thrown e \<Rightarrow> Thrown e
           | Invalid \<Rightarrow> Invalid
           | Valid vs \<Rightarrow>
               Valid (JObject None
                 (assign_all
                    (kept_entries m
                       (zip [''id'', ''source'', ''target'', ''sourceHandle'', ''targetHandle''] vs))
                    m)))
      | _ \<Rightarrow> Invalid)"

text \<open>\<^verbatim>\<open>z.array(item).default([])\<close>.\<close>

definition array_default :: "(jsval \<Rightarrow> jsval parsed) \<Rightarrow> jsval \<Rightarrow> jsval parsed" where
  "array_default item v =
     (if v = JUndefined then Valid (JArr [])
      else (case v of
              JObject (Some xs) m \<Rightarrow>
                (case merge_parsed (map item xs) of
                   Thrown e \<Rightarrow> Thrown e | Invalid \<Rightarrow> Invalid | Valid vs \<Rightarrow> Valid (JArr vs))
            | _ \<Rightarrow> Invalid))"

definition FlowDefinitionSchema :: "host \<Rightarrow> jsval \<Rightarrow> jsval parsed" where
  "FlowDefinitionSchema h v =
     (case (if v = JUndefined then JObj [(''nodes'', JArr []), (''edges'', JArr [])] else v) of
        JObject None m \<Rightarrow>
          (case merge_parsed [array_default (FlowNodeSchemaInternal h) (ctx_get m ''nodes''),
                              array_default FlowEdgeSchemaInternal (ctx_get m ''edges'')] of
             Thrown e \<Rightarrow> Thrown e
           | Invalid \<Rightarrow> Invalid
           | Valid vs \<Rightarrow>
               Valid (JObject None (assign_all (kept_entries m (zip [''nodes'', ''edges''] vs)) fmempty)))
      | _ \<Rightarrow> Invalid)"

text \<open>
  The functions of the module. \<^verbatim>\<open>structuredClone\<close> copies primitives, arrays and plain
  objects with all their properties and throws on a function; a host value counts as a
  function here. When it is missing or throws, \<^verbatim>\<open>deepClone\<close> copies the elements of an array
  (not its named properties) and the entries of a plain object, each with \<^verbatim>\<open>deepClone\<close>,
  and returns any other value as it is.
\<close>

primrec uncloneable :: "jsval \<Rightarrow> bool" where
  "uncloneable JUndefined = False"
| "uncloneable JNull = False"
| "uncloneable (JBool b) = False"
| "uncloneable (JNum n) = False"
| "uncloneable (JStr s) = False"
| "uncloneable (JHost n) = True"
| "uncloneable (JObject a m) =
     ((case map_option (map uncloneable) a of Some bs \<Rightarrow> True \<in> set bs | None \<Rightarrow> False)
      \<or> True \<in> fmran' (fmmap uncloneable m))"

declare uncloneable.simps(7) [simp del]

primrec deepClone :: "host \<Rightarrow> jsval \<Rightarrow> jsval" where
  "deepClone h JUndefined = JUndefined"
| "deepClone h JNull = JNull"
| "deepClone h (JBool b) = JBool b"
| "deepClone h (JNum n) = JNum n"
| "deepClone h (JStr s) = JStr s"
| "deepClone h (JHost n) = JHost n"
| "deepClone h (JObject a m) =
     (if has_structuredClone h \<and> \<not> uncloneable (JObject a m) then JObject a m
      else JObject (map_option (map (deepClone h)) a)
                   (if a = None then fmmap (deepClone h) m else fmempty))"

definition ensureCoordinate :: "host \<Rightarrow> jsval \<Rightarrow> error + jsnum" where
  "ensureCoordinate h v =
     (case (case v of JNum n \<Rightarrow> if isFinite n then Some n else None | _ \<Rightarrow> None) of
        Some n \<Rightarrow> Inr n
      | None \<Rightarrow>
          (case js_Number h v of
             Inl e \<Rightarrow> Inl e
           | Inr coerced \<Rightarrow> Inr (if isFinite coerced then coerced else Fin 0)))"

definition parseFlowInput :: "host \<Rightarrow> jsval \<Rightarrow> error + jsval" where
  "parseFlowInput h input =
     (case input of
        JStr s \<Rightarrow>
          (let trimmed = js_trim s
           in if trimmed = '''' then Inr (JObject None fmempty)
              else (case JSON_parse h trimmed of
                      Some v \<Rightarrow> Inr v
                    | None \<Rightarrow>
                        Inl (FlowSanitizationError ''Flow definition string must be valid JSON.'')))
      | _ \<Rightarrow> Inr (if is_nullish input then JObject None fmempty else input))"

text \<open>The two callbacks of \<^verbatim>\<open>sanitizeFlowDefinition\<close>, on a parsed node and a parsed edge.\<close>

definition spread_with :: "jsval \<Rightarrow> (string \<times> jsval) list \<Rightarrow> jsval" where
  "spread_with clone kvs =
     JObject None (assign_all kvs (case clone of JObject a m \<Rightarrow> m | _ \<Rightarrow> fmempty))"

definition sanitize_node :: "host \<Rightarrow> jsval \<Rightarrow> error + jsval" where
  "sanitize_node h node =
     (let clone = deepClone h node;
          position = (if isPlainObject (own clone ''position'') then own clone ''position''
                      else JObject None fmempty)
      in case js_String h (own clone ''id'') of
           Inl e \<Rightarrow> Inl e
         | Inr i \<Rightarrow>
        (case ensureCoordinate h (own position ''x'') of
           Inl e \<Rightarrow> Inl e
         | Inr x \<Rightarrow>
        (case ensureCoordinate h (own position ''y'') of
           Inl e \<Rightarrow> Inl e
         | Inr y \<Rightarrow>
             Inr (spread_with clone
                    [(''id'', JStr i),
                     (''type'', own clone ''type''),
                     (''data'', if isPlainObject (own clone ''data'')
                                then deepClone h (own clone ''data'') else JObject None fmempty),
                     (''position'', JObj [(''x'', JNum x), (''y'', JNum y)])]))))"

definition normalizeHandle :: "jsval \<Rightarrow> jsval" where
  "normalizeHandle handle =
     (case handle of JStr s \<Rightarrow> handle | JNull \<Rightarrow> JNull | _ \<Rightarrow> JUndefined)"

definition sanitize_edge :: "host \<Rightarrow> jsval \<Rightarrow> error + jsval" where
  "sanitize_edge h edge =
     (let clone = deepClone h edge
      in case traverse (\<lambda>k. js_String h (own clone k)) [''id'', ''source'', ''target''] of
           Inl e \<Rightarrow> Inl e
         | Inr strs \<Rightarrow>
             Inr (spread_with clone
                    (zip [''id'', ''source'', ''target''] (map JStr strs)
                     @ [(''sourceHandle'', normalizeHandle (own clone ''sourceHandle'')),
                        (''targetHandle'', normalizeHandle (own clone ''targetHandle''))])))"

definition sanitizeFlowDefinition :: "host \<Rightarrow> jsval \<Rightarrow> error + jsval" where
  "sanitizeFlowDefinition h input =
     (case parseFlowInput h input of
        Inl e \<Rightarrow> Inl e
      | Inr v \<Rightarrow>
          (case FlowDefinitionSchema h v of
             Thrown e \<Rightarrow> Inl e
           | Invalid \<Rightarrow> Inl ZodError
           | Valid parsed \<Rightarrow>
               (case traverse (sanitize_node h) (elements (own parsed ''nodes'')) of
                  Inl e \<Rightarrow> Inl e
                | Inr nodes \<Rightarrow>
                    (case traverse (sanitize_edge h) (elements (own parsed ''edges'')) of
                       Inl e \<Rightarrow> Inl e
                     | Inr edges \<Rightarrow>
                         Inr (JObj [(''nodes'', JArr nodes), (''edges'', JArr edges)])))))"

definition emptyFlowDefinition :: jsval where
  "emptyFlowDefinition = JObj [(''nodes'', JArr []), (''edges'', JArr [])]"

text \<open>
  A sanitized node: an object whose \<^verbatim>\<open>id\<close> is a non-empty string, whose \<^verbatim>\<open>type\<close> is one of
  the twelve node types, whose \<^verbatim>\<open>data\<close> is an object and whose \<^verbatim>\<open>position\<close> is the object of
  two finite numbers \<^verbatim>\<open>x\<close> and \<^verbatim>\<open>y\<close>. A sanitized edge: an object whose \<^verbatim>\<open>id\<close>, \<^verbatim>\<open>source\<close> and
  \<^verbatim>\<open>target\<close> are non-empty strings and whose two handles are present, each a string, null
  or undefined.
\<close>

definition is_nonempty_string :: "jsval \<Rightarrow> bool" where
  "is_nonempty_string v = (case v of JStr s \<Rightarrow> s \<noteq> '''' | _ \<Rightarrow> False)"

definition is_node_type :: "jsval \<Rightarrow> bool" where
  "is_node_type v = (case v of JStr s \<Rightarrow> s \<in> set flowNodeTypes | _ \<Rightarrow> False)"

definition is_finite_number :: "jsval \<Rightarrow> bool" where
  "is_finite_number v = (case v of JNum n \<Rightarrow> isFinite n | _ \<Rightarrow> False)"

definition is_handle :: "jsval option \<Rightarrow> bool" where
  "is_handle v = (case v of Some (JStr s) \<Rightarrow> True | Some JNull \<Rightarrow> True | Some JUndefined \<Rightarrow> True
                  | _ \<Rightarrow> False)"

definition sanitized_node :: "jsval \<Rightarrow> bool" where
  "sanitized_node v =
     (case v of
        JObject None m \<Rightarrow>
          is_nonempty_string (ctx_get m ''id'')
          \<and> is_node_type (ctx_get m ''type'')
          \<and> isPlainObject (ctx_get m ''data'')
          \<and> is_finite_number (own (ctx_get m ''position'') ''x'')
          \<and> is_finite_number (own (ctx_get m ''position'') ''y'')
          \<and> ctx_get m ''position''
              = JObj [(''x'', own (ctx_get m ''position'') ''x''),
                      (''y'', own (ctx_get m ''position'') ''y'')]
      | _ \<Rightarrow> False)"

definition sanitized_edge :: "jsval \<Rightarrow> bool" where
  "sanitized_edge v =
     (case v of
        JObject None m \<Rightarrow>
          is_nonempty_string (ctx_get m ''id'')
          \<and> is_nonempty_string (ctx_get m ''source'')
          \<and> is_nonempty_string (ctx_get m ''target'')
          \<and> is_handle (fmlookup m ''sourceHandle'') \<and> is_handle (fmlookup m ''targetHandle'')
      | _ \<Rightarrow> False)"

definition example_definition :: jsval where
  "example_definition =
     JObj [(''nodes'',
            JArr [JObj [(''id'', JStr ''n1''), (''type'', JStr ''trigger''),
                        (''position'', JObj [(''x'', JStr ''abc'')]),
                        (''data'', JObj [(''keyword'', JStr ''hola'')]),
                        (''selected'', JBool True)]]),
           (''edges'',
            JArr [JObj [(''id'', JStr ''e1''), (''source'', JStr ''n1''), (''target'', JStr ''n2'')]])]"

text \<open>The coordinate a sanitized node is to carry for the coordinate \<open>c\<close> it was given.\<close>

definition coordinate_or_zero :: "host \<Rightarrow> jsval \<Rightarrow> jsnum" where
  "coordinate_or_zero h c =
     (case js_Number h c of Inr n \<Rightarrow> if isFinite n then n else Fin 0 | Inl e \<Rightarrow> Fin 0)"

definition example_sanitized :: jsval where
  "example_sanitized =
     JObj [(''nodes'',
            JArr [JObj [(''id'', JStr ''n1''), (''type'', JStr ''trigger''),
                        (''position'', JObj [(''x'', JNum (Fin 0)), (''y'', JNum (Fin 0))]),
                        (''data'', JObj [(''keyword'', JStr ''hola'')]),
                        (''selected'', JBool True)]]),
           (''edges'',
            JArr [JObj [(''id'', JStr ''e1''), (''source'', JStr ''n1''), (''target'', JStr ''n2''),
                        (''sourceHandle'', JUndefined), (''targetHandle'', JUndefined)]])]"

section \<open>Theorems\<close>

subsection \<open>Webhook verification\<close>

text \<open>
  C9, as stated, fails: a request whose verify token equals the configured token and
  whose challenge is a string is answered with 400, not 200, when \<^verbatim>\<open>hub.mode\<close> is not
  \<^verbatim>\<open>subscribe\<close>.
\<close>

theorem webhook_token_match_without_mode_is_400:
  "map_of example_query_no_mode ''hub.verify_token'' = Some (QString (VERIFY_TOKEN example_env))
   \<and> map_of example_query_no_mode ''hub.challenge'' = Some (QString ''1158201444'')
   \<and> get_meta_webhook example_env example_query_no_mode
       = \<lparr>status = 400, body = ''Invalid verification request''\<rparr>"
  by (simp add: get_meta_webhook_def example_query_no_mode_def example_env_def VERIFY_TOKEN_def)

text \<open>
  C9, amended: if \<^verbatim>\<open>hub.mode\<close> is \<^verbatim>\<open>subscribe\<close>, the configured verify token is not empty,
  \<^verbatim>\<open>hub.verify_token\<close> equals it and \<^verbatim>\<open>hub.challenge\<close> is a string, the response is 200 with
  the challenge as body; in every other case the status is 403 or 400.
\<close>

theorem webhook_verification:
  "(map_of query ''hub.mode'' = Some (QString ''subscribe'')
      \<and> VERIFY_TOKEN env \<noteq> ''''
      \<and> map_of query ''hub.verify_token'' = Some (QString (VERIFY_TOKEN env))
      \<and> map_of query ''hub.challenge'' = Some (QString c)
    \<longrightarrow> get_meta_webhook env query = \<lparr>status = 200, body = c\<rparr>)
   \<and> (\<not> (map_of query ''hub.mode'' = Some (QString ''subscribe'')
          \<and> VERIFY_TOKEN env \<noteq> ''''
          \<and> map_of query ''hub.verify_token'' = Some (QString (VERIFY_TOKEN env))
          \<and> (\<exists>c'. map_of query ''hub.challenge'' = Some (QString c')))
    \<longrightarrow> status (get_meta_webhook env query) = 403
        \<or> status (get_meta_webhook env query) = 400)"
  by (auto simp: get_meta_webhook_def Let_def split: option.splits query_value.splits)

theorem webhook_verification_witness:
  "map_of example_query_subscribe ''hub.mode'' = Some (QString ''subscribe'')
   \<and> VERIFY_TOKEN example_env \<noteq> ''''
   \<and> map_of example_query_subscribe ''hub.verify_token'' = Some (QString (VERIFY_TOKEN example_env))
   \<and> map_of example_query_subscribe ''hub.challenge'' = Some (QString ''1158201444'')
   \<and> get_meta_webhook example_env example_query_subscribe = \<lparr>status = 200, body = ''1158201444''\<rparr>
   \<and> status (get_meta_webhook example_env example_query_no_mode) = 400"
  using webhook_verification [of example_query_subscribe example_env "''1158201444''"]
    webhook_verification [of example_query_no_mode example_env "''1158201444''"]
  by (simp add: example_query_subscribe_def example_query_no_mode_def example_env_def
        VERIFY_TOKEN_def get_meta_webhook_def)

subsection \<open>Broadcast aggregates\<close>

lemma broadcast_deltas_spec:
  "broadcast_deltas p n =
     (spec_delta BROADCAST_SUCCESS_STATUSES p n, spec_delta BROADCAST_FAILURE_STATUSES p n)"
  by (cases p)
     (auto simp: broadcast_deltas_def spec_delta_def status_in_def Let_def
        BROADCAST_SUCCESS_STATUSES_def BROADCAST_FAILURE_STATUSES_def)

lemma applied_counter_data: "applied_delta (counter_data d) = d"
  by (simp add: counter_data_def)

lemma adjust_unfold:
  assumes "n \<noteq> ''''" "p \<noteq> Some n"
  shows "adjustBroadcastAggregates b p (Some n) =
     (if spec_delta BROADCAST_SUCCESS_STATUSES p n = 0 \<and> spec_delta BROADCAST_FAILURE_STATUSES p n = 0
      then None
      else Some (b, \<lparr>successCount = counter_data (spec_delta BROADCAST_SUCCESS_STATUSES p n),
                     failureCount = counter_data (spec_delta BROADCAST_FAILURE_STATUSES p n)\<rparr>))"
  using assms by (simp add: adjustBroadcastAggregates_def broadcast_deltas_spec)

lemma spec_delta_same: "spec_delta A (Some n) n = 0"
  by (simp add: spec_delta_def status_in_def)

text \<open>
  C2: the success set is Sent, Delivered, Read and the failure set is Failed. For a
  next status that is present, each delta is +1 when the next status is in the set
  and the previous one is not, -1 when the previous one is in the set and the next one
  is not, and 0 otherwise; an update is issued exactly when a delta is not zero, and it
  then carries both deltas. When the next status is null, or equals the previous one, no
  update is issued.
\<close>

theorem broadcast_aggregate_deltas:
  "BROADCAST_SUCCESS_STATUSES = {''Sent'', ''Delivered'', ''Read''}
   \<and> BROADCAST_FAILURE_STATUSES = {''Failed''}
   \<and> (n \<noteq> '''' \<longrightarrow>
        broadcast_deltas p n
          = (spec_delta BROADCAST_SUCCESS_STATUSES p n, spec_delta BROADCAST_FAILURE_STATUSES p n)
        \<and> (case adjustBroadcastAggregates b p (Some n) of
             None \<Rightarrow> spec_delta BROADCAST_SUCCESS_STATUSES p n = 0
                      \<and> spec_delta BROADCAST_FAILURE_STATUSES p n = 0
           | Some (b', u) \<Rightarrow>
               b' = b
               \<and> applied_delta (successCount u) = spec_delta BROADCAST_SUCCESS_STATUSES p n
               \<and> applied_delta (failureCount u) = spec_delta BROADCAST_FAILURE_STATUSES p n
               \<and> (spec_delta BROADCAST_SUCCESS_STATUSES p n \<noteq> 0
                    \<or> spec_delta BROADCAST_FAILURE_STATUSES p n \<noteq> 0)))
   \<and> adjustBroadcastAggregates b p None = None
   \<and> adjustBroadcastAggregates b (Some n) (Some n) = None"
proof -
  have sets: "BROADCAST_SUCCESS_STATUSES = {''Sent'', ''Delivered'', ''Read''}"
    "BROADCAST_FAILURE_STATUSES = {''Failed''}"
    by (simp_all only: BROADCAST_SUCCESS_STATUSES_def BROADCAST_FAILURE_STATUSES_def)
  have none: "adjustBroadcastAggregates b p None = None"
    by (simp add: adjustBroadcastAggregates_def)
  have same: "adjustBroadcastAggregates b (Some n) (Some n) = None"
    by (simp add: adjustBroadcastAggregates_def)
  have upd: "case adjustBroadcastAggregates b p (Some n) of
             None \<Rightarrow> spec_delta BROADCAST_SUCCESS_STATUSES p n = 0
                      \<and> spec_delta BROADCAST_FAILURE_STATUSES p n = 0
           | Some (b', u) \<Rightarrow>
               b' = b
               \<and> applied_delta (successCount u) = spec_delta BROADCAST_SUCCESS_STATUSES p n
               \<and> applied_delta (failureCount u) = spec_delta BROADCAST_FAILURE_STATUSES p n
               \<and> (spec_delta BROADCAST_SUCCESS_STATUSES p n \<noteq> 0
                    \<or> spec_delta BROADCAST_FAILURE_STATUSES p n \<noteq> 0)" if "n \<noteq> ''''"
  proof (cases "p = Some n")
    case True
    then show ?thesis by (simp add: same spec_delta_same)
  next
    case False
    show ?thesis
      by (simp only: adjust_unfold [OF that False] applied_counter_data
            option.case prod.case broadcast_update.select_convs split: if_splits) simp
  qed
  show ?thesis
    by (intro conjI impI) (rule sets none same broadcast_deltas_spec upd | assumption)+
qed

theorem broadcast_aggregate_deltas_witness:
  "''Failed'' \<noteq> ''''
   \<and> spec_delta BROADCAST_SUCCESS_STATUSES (Some ''Sent'') ''Failed'' = - 1
   \<and> spec_delta BROADCAST_FAILURE_STATUSES (Some ''Sent'') ''Failed'' = 1
   \<and> adjustBroadcastAggregates ''b1'' (Some ''Sent'') (Some ''Failed'')
       = Some (''b1'', \<lparr>successCount = Some (Decrement 1), failureCount = Some (Increment 1)\<rparr>)
   \<and> adjustBroadcastAggregates ''b1'' (Some ''Sent'') (Some ''Delivered'') = None"
  using broadcast_aggregate_deltas [of "''Failed''" "Some ''Sent''" "''b1''"]
  by (simp add: adjustBroadcastAggregates_def broadcast_deltas_def counter_data_def
        spec_delta_def status_in_def
        BROADCAST_SUCCESS_STATUSES_def BROADCAST_FAILURE_STATUSES_def)

subsection \<open>Contact resolution\<close>




















subsection \<open>Context history\<close>

lemma ctx_get_fmupd: "ctx_get (fmupd k v c) k' = (if k = k' then v else ctx_get c k')"
  by (simp add: ctx_get_def)

lemma ctx_get_assign_all:
  "list_all (\<lambda>kv. fst kv \<noteq> k) kvs \<Longrightarrow> ctx_get (assign_all kvs c) k = ctx_get c k"
proof (induction kvs arbitrary: c)
  case Nil
  then show ?case by (simp add: assign_all_def)
next
  case (Cons kv kvs)
  obtain k' v where kv: "kv = (k', v)" by (cases kv)
  have "assign_all (kv # kvs) c = assign_all kvs (fmupd k' v c)"
    by (simp add: assign_all_def kv)
  with Cons show ?case by (auto simp: kv ctx_get_fmupd)
qed

lemma list_all_defined_entries:
  "list_all P kvs \<Longrightarrow> list_all P (defined_entries kvs)"
  by (induction kvs) (auto simp: defined_entries_def)

lemma elements_push_capped:
  "isArray arr \<Longrightarrow> elements (push_capped arr e) =
     (if length (elements arr) \<ge> HISTORY_LIMIT
      then drop (Suc (length (elements arr)) - HISTORY_LIMIT) (elements arr @ [e])
      else elements arr @ [e])"
  by (auto simp: isArray_def elements_def push_capped_def Let_def HISTORY_LIMIT_def
      split: jsval.splits option.splits)

lemma isArray_JArr: "isArray (JArr xs)" and elements_JArr: "elements (JArr xs) = xs"
  by (simp_all add: isArray_def JArr_def elements_def)

lemma ensureMeta_history_array: "isArray (own (ctx_get (ensureMeta c) ''_meta'') ''history'')"
  by (auto simp: ensureMeta_def Let_def ctx_get_fmupd own_def set_own_def JObj_def JArr_def isArray_def
      split: jsval.splits option.splits)

lemma own_set_own:
  "(case v of JObject a m \<Rightarrow> True | _ \<Rightarrow> False) \<Longrightarrow> own (set_own v k x) k = x"
  by (auto simp: own_def set_own_def split: jsval.splits)

lemma ensureMeta_object:
  "(case ctx_get (ensureMeta c) ''_meta'' of JObject a m \<Rightarrow> True | _ \<Rightarrow> False)"
  by (auto simp: ensureMeta_def Let_def ctx_get_fmupd JObj_def set_own_def split: jsval.splits)

lemma meta_history_pushHistory:
  "meta_history (pushHistory e c) =
     (let old = meta_history (ensureMeta c)
      in if length old \<ge> HISTORY_LIMIT
         then drop (Suc (length old) - HISTORY_LIMIT) (old @ [e]) else old @ [e])"
  using ensureMeta_history_array [of c] ensureMeta_object [of c]
  by (simp add: meta_history_def pushHistory_def Let_def ctx_get_fmupd own_set_own elements_push_capped)

lemma meta_history_ensureMeta:
  "meta_history (ensureMeta c) = meta_history c"
  by (auto simp: meta_history_def ensureMeta_def Let_def ctx_get_fmupd own_def set_own_def JObj_def JArr_def
        isArray_def elements_def truthy_def
      split: jsval.splits option.splits)

lemma meta_history_push_keep:
  "meta_history (pushHistory e c) = keep_newest HISTORY_LIMIT (meta_history c @ [e])"
  by (auto simp: meta_history_pushHistory meta_history_ensureMeta Let_def keep_newest_def
        HISTORY_LIMIT_def Suc_diff_le)

lemma meta_history_fmupd: "k \<noteq> ''_meta'' \<Longrightarrow> meta_history (fmupd k v c) = meta_history c"
  by (simp add: meta_history_def ctx_get_fmupd)

lemma meta_history_assign_all:
  "list_all (\<lambda>kv. fst kv \<noteq> ''_meta'') kvs \<Longrightarrow> meta_history (assign_all kvs c) = meta_history c"
  by (simp add: meta_history_def ctx_get_assign_all)

lemma input_history_fmupd:
  "k \<noteq> ''inputHistory'' \<Longrightarrow> input_history (fmupd k v c) = input_history c"
  by (simp add: input_history_def ctx_get_fmupd)

lemma input_history_assign_all:
  "list_all (\<lambda>kv. fst kv \<noteq> ''inputHistory'') kvs
     \<Longrightarrow> input_history (assign_all kvs c) = input_history c"
  by (simp add: input_history_def ctx_get_assign_all)

lemma input_history_ensureMeta: "input_history (ensureMeta c) = input_history c"
  by (simp add: ensureMeta_def Let_def input_history_fmupd)

lemma input_history_pushHistory: "input_history (pushHistory e c) = input_history c"
  by (simp add: pushHistory_def Let_def input_history_fmupd input_history_ensureMeta)

lemma histories_inbound_fields:
  "meta_history (inbound_fields ts p c) = meta_history c"
  "input_history (inbound_fields ts p c) = input_history c"
  by (simp_all add: inbound_fields_def Let_def meta_history_assign_all input_history_assign_all
        list_all_defined_entries)

lemma outbound_before_keys:
  "list_all (\<lambda>kv. fst kv \<noteq> ''_meta'') (outbound_before_updates ty payload t n)"
  "list_all (\<lambda>kv. fst kv \<noteq> ''inputHistory'') (outbound_before_updates ty payload t n)"
  by (auto simp: outbound_before_updates_def Let_def split: option.splits jsval.splits)

lemma histories_outbound_before:
  "meta_history (outbound_before ty payload t n c) = meta_history c"
  "input_history (outbound_before ty payload t n c) = input_history c"
  by (simp_all add: outbound_before_def meta_history_assign_all input_history_assign_all
        outbound_before_keys)

lemma histories_outbound_after:
  "meta_history (outbound_after ts ty payload c) = meta_history c"
  "input_history (outbound_after ts ty payload c) = input_history c"
  by (simp_all add: outbound_after_def Let_def meta_history_assign_all input_history_assign_all)

lemma elements_push_keep:
  "isArray arr \<Longrightarrow> elements (push_capped arr e) = keep_newest HISTORY_LIMIT (elements arr @ [e])"
  by (auto simp: elements_push_capped keep_newest_def HISTORY_LIMIT_def Suc_diff_le)

lemma histories_push_input:
  "meta_history (push_input ts txt c) = meta_history c"
  "input_history (push_input ts txt c)
     = keep_newest HISTORY_LIMIT
         (input_history c @ [JObj [(''text'', JStr txt), (''timestamp'', JStr ts)]])"
proof -
  show "meta_history (push_input ts txt c) = meta_history c"
    by (simp add: push_input_def Let_def meta_history_fmupd)
  let ?prev = "if isArray (ctx_get c ''inputHistory'')
               then JArr (elements (ctx_get c ''inputHistory'')) else JArr []"
  have arr: "isArray ?prev" by (simp add: isArray_JArr)
  have "\<not> isArray v \<Longrightarrow> elements v = []" for v
    by (auto simp: isArray_def elements_def split: jsval.splits option.splits)
  then have el: "elements ?prev = input_history c"
    by (cases "isArray (ctx_get c ''inputHistory'')") (simp_all add: elements_JArr input_history_def)
  have "input_history (push_input ts txt c)
          = elements (push_capped ?prev (JObj [(''text'', JStr txt), (''timestamp'', JStr ts)]))"
    by (simp add: push_input_def Let_def input_history_def ctx_get_fmupd)
  also have "\<dots> = keep_newest HISTORY_LIMIT
                    (elements ?prev @ [JObj [(''text'', JStr txt), (''timestamp'', JStr ts)]])"
    by (rule elements_push_keep [OF arr])
  finally show "input_history (push_input ts txt c)
     = keep_newest HISTORY_LIMIT
         (input_history c @ [JObj [(''text'', JStr txt), (''timestamp'', JStr ts)]])"
    by (simp only: el)
qed

lemma histories_bump:
  "meta_history (bump_messageCount c) = meta_history c"
  "input_history (bump_messageCount c) = input_history c"
  by (simp_all add: bump_messageCount_def Let_def meta_history_fmupd input_history_fmupd)

lemma recordInbound_histories:
  "meta_history (recordInbound ts p c)
     = keep_newest HISTORY_LIMIT (meta_history c @ [inbound_entry ts p])"
  "input_history (recordInbound ts p c)
     = keep_newest HISTORY_LIMIT
         (input_history c @ [JObj [(''text'', JStr (in_text p)), (''timestamp'', JStr ts)]])"
  by (simp_all add: recordInbound_def histories_bump histories_push_input histories_inbound_fields
        meta_history_push_keep input_history_pushHistory)

lemma recordOutbound_histories:
  assumes "recordOutbound h ts ty payload c = Inr c'"
  shows "\<exists>e. meta_history c' = keep_newest HISTORY_LIMIT (meta_history c @ [e])"
    and "input_history c' = input_history c"
  using assms
  by (auto simp: recordOutbound_def histories_outbound_after histories_outbound_before
        meta_history_push_keep input_history_pushHistory split: sum.splits)

lemma length_keep_newest: "length (keep_newest n xs) \<le> n"
  by (simp add: keep_newest_def)

lemma apply_ops_cap:
  "apply_ops h ops c = Inr c'
   \<Longrightarrow> length (meta_history c) \<le> HISTORY_LIMIT \<Longrightarrow> length (input_history c) \<le> HISTORY_LIMIT
   \<Longrightarrow> length (meta_history c') \<le> HISTORY_LIMIT \<and> length (input_history c') \<le> HISTORY_LIMIT"
proof (induction ops arbitrary: c)
  case Nil
  then show ?case by simp
next
  case (Cons op ops)
  show ?case
  proof (cases op)
    case (Inbound ts p)
    with Cons.prems have "apply_ops h ops (recordInbound ts p c) = Inr c'" by simp
    then show ?thesis
      by (rule Cons.IH) (simp_all add: recordInbound_histories length_keep_newest)
  next
    case (Outbound ts ty payload)
    with Cons.prems obtain c1 where c1: "recordOutbound h ts ty payload c = Inr c1"
      and rest: "apply_ops h ops c1 = Inr c'"
      by (auto split: sum.splits)
    from recordOutbound_histories [OF c1] Cons.prems
    have "length (meta_history c1) \<le> HISTORY_LIMIT" "length (input_history c1) \<le> HISTORY_LIMIT"
      by (auto simp: length_keep_newest)
    with rest show ?thesis by (rule Cons.IH)
  qed
qed

lemma apply_ops_meta_any:
  "apply_ops h ops c = Inr c' \<Longrightarrow> ops \<noteq> [] \<Longrightarrow> length (meta_history c') \<le> HISTORY_LIMIT"
proof (induction ops arbitrary: c)
  case Nil
  then show ?case by simp
next
  case (Cons op ops)
  obtain c1 where c1: "apply_ops h [op] c = Inr c1" and rest: "apply_ops h ops c1 = Inr c'"
    using Cons.prems(1) by (cases op) (auto split: sum.splits)
  have l1: "length (meta_history c1) \<le> HISTORY_LIMIT"
  proof (cases op)
    case (Inbound ts p)
    with c1 show ?thesis by (auto simp: recordInbound_histories length_keep_newest)
  next
    case (Outbound ts ty payload)
    with c1 have "recordOutbound h ts ty payload c = Inr c1" by (auto split: sum.splits)
    from recordOutbound_histories(1) [OF this] show ?thesis
      by (auto simp: length_keep_newest)
  qed
  show ?case
  proof (cases "ops = []")
    case True
    with rest l1 show ?thesis by simp
  next
    case False
    from Cons.IH [OF rest False] show ?thesis .
  qed
qed

lemma apply_ops_input_any:
  "apply_ops h ops c = Inr c' \<Longrightarrow> list_ex is_inbound ops
     \<Longrightarrow> length (input_history c') \<le> HISTORY_LIMIT"
proof (induction ops arbitrary: c)
  case Nil
  then show ?case by simp
next
  case (Cons op ops)
  show ?case
  proof (cases op)
    case (Inbound ts p)
    with Cons.prems have rest: "apply_ops h ops (recordInbound ts p c) = Inr c'" by simp
    have "length (input_history (recordInbound ts p c)) \<le> HISTORY_LIMIT"
      by (simp add: recordInbound_histories length_keep_newest)
    moreover have "length (meta_history (recordInbound ts p c)) \<le> HISTORY_LIMIT"
      by (simp add: recordInbound_histories length_keep_newest)
    ultimately show ?thesis using apply_ops_cap [OF rest] by simp
  next
    case (Outbound ts ty payload)
    with Cons.prems obtain c1 where c1: "recordOutbound h ts ty payload c = Inr c1"
      and rest: "apply_ops h ops c1 = Inr c'"
      by (auto split: sum.splits)
    have "\<not> is_inbound op" using Outbound by (simp add: is_inbound_def)
    with Cons.prems(2) have "list_ex is_inbound ops" by simp
    from Cons.IH [OF rest this] show ?thesis .
  qed
qed

lemma example_ops_result:
  "\<exists>c'. apply_ops example_host example_ops fmempty = Inr c'"
  by (simp add: example_ops_def recordOutbound_def outbound_text_def outbound_options_def
        ctx_get_def isArray_def Let_def)

text \<open>
  C8: a sequence of inbound and outbound recording operations keeps both
  \<^verbatim>\<open>_meta.history\<close> and \<^verbatim>\<open>inputHistory\<close> within 50 entries when it starts from a context
  within the cap (a new session's context is empty); after at least one operation
  \<^verbatim>\<open>_meta.history\<close> is within 50 entries whatever the starting context, and so is
  \<^verbatim>\<open>inputHistory\<close> after an inbound operation. Each operation appends one entry and keeps
  the newest 50, so the oldest entries go first; an outbound operation leaves
  \<^verbatim>\<open>inputHistory\<close> as it is.
\<close>

theorem history_caps:
  "(apply_ops h ops c = Inr c' \<and> length (meta_history c) \<le> 50 \<and> length (input_history c) \<le> 50
      \<longrightarrow> length (meta_history c') \<le> 50 \<and> length (input_history c') \<le> 50)
   \<and> (apply_ops h ops c = Inr c' \<and> ops \<noteq> [] \<longrightarrow> length (meta_history c') \<le> 50)
   \<and> (apply_ops h ops c = Inr c' \<and> list_ex is_inbound ops \<longrightarrow> length (input_history c') \<le> 50)
   \<and> meta_history (recordInbound ts p c) = keep_newest 50 (meta_history c @ [inbound_entry ts p])
   \<and> input_history (recordInbound ts p c)
       = keep_newest 50 (input_history c @ [JObj [(''text'', JStr (in_text p)), (''timestamp'', JStr ts)]])
   \<and> (recordOutbound h ts ty payload c = Inr c''
        \<longrightarrow> (\<exists>e. meta_history c'' = keep_newest 50 (meta_history c @ [e]))
            \<and> input_history c'' = input_history c)"
proof (intro conjI impI)
  assume "apply_ops h ops c = Inr c' \<and> length (meta_history c) \<le> 50 \<and> length (input_history c) \<le> 50"
  then have "length (meta_history c') \<le> HISTORY_LIMIT \<and> length (input_history c') \<le> HISTORY_LIMIT"
    using apply_ops_cap [of h ops c c'] by (simp add: HISTORY_LIMIT_def)
  then show "length (meta_history c') \<le> 50" "length (input_history c') \<le> 50"
    by (simp_all add: HISTORY_LIMIT_def)
next
  assume "apply_ops h ops c = Inr c' \<and> ops \<noteq> []"
  then show "length (meta_history c') \<le> 50"
    using apply_ops_meta_any [of h ops c c'] by (simp add: HISTORY_LIMIT_def)
next
  assume "apply_ops h ops c = Inr c' \<and> list_ex is_inbound ops"
  then show "length (input_history c') \<le> 50"
    using apply_ops_input_any [of h ops c c'] by (simp add: HISTORY_LIMIT_def)
next
  show "meta_history (recordInbound ts p c) = keep_newest 50 (meta_history c @ [inbound_entry ts p])"
    using recordInbound_histories(1) [of ts p c] by (simp add: HISTORY_LIMIT_def)
next
  show "input_history (recordInbound ts p c)
       = keep_newest 50 (input_history c @ [JObj [(''text'', JStr (in_text p)), (''timestamp'', JStr ts)]])"
    using recordInbound_histories(2) [of ts p c] by (simp add: HISTORY_LIMIT_def)
next
  assume r: "recordOutbound h ts ty payload c = Inr c''"
  from recordOutbound_histories(1) [OF r]
  show "\<exists>e. meta_history c'' = keep_newest 50 (meta_history c @ [e])"
    by (simp add: HISTORY_LIMIT_def)
  from recordOutbound_histories(2) [OF r]
  show "input_history c'' = input_history c" .
qed

theorem history_caps_witness:
  "length (meta_history fmempty) \<le> 50 \<and> length (input_history fmempty) \<le> 50
   \<and> example_ops \<noteq> [] \<and> list_ex is_inbound example_ops
   \<and> (case apply_ops example_host example_ops fmempty of
         Inl e \<Rightarrow> False
       | Inr c' \<Rightarrow> length (meta_history c') \<le> 50 \<and> length (input_history c') \<le> 50)"
proof -
  from example_ops_result obtain c' where c': "apply_ops example_host example_ops fmempty = Inr c'"
    by blast
  have start: "length (meta_history fmempty) \<le> 50 \<and> length (input_history fmempty) \<le> 50"
    by (simp add: meta_history_def input_history_def ctx_get_def own_def elements_def)
  have ops: "example_ops \<noteq> [] \<and> list_ex is_inbound example_ops"
    by (simp add: example_ops_def is_inbound_def)
  from history_caps [of example_host example_ops fmempty c'] c' start
  have "length (meta_history c') \<le> 50 \<and> length (input_history c') \<le> 50" by blast
  with c' start ops show ?thesis by simp
qed

subsection \<open>Condition expressions\<close>


lemma starts_with_append: "starts_with t (t @ post)"
  by (simp add: starts_with_def)









subsection \<open>Template interpolation\<close>

lemma match_not_brace: "c \<noteq> CHR ''{'' \<Longrightarrow> match_placeholder (c # cs) = None"
  by (simp add: match_placeholder_def split: list.splits)

lemma replace_plain_prefix:
  "CHR ''{'' \<notin> set pre \<Longrightarrow>
   replace_placeholders f (pre @ s) =
     (case replace_placeholders f s of Inl e \<Rightarrow> Inl e | Inr out \<Rightarrow> Inr (pre @ out))"
proof (induction pre)
  case Nil
  then show ?case by (simp split: sum.splits)
next
  case (Cons c pre)
  then have "c \<noteq> CHR ''{''" by auto
  then have "match_placeholder (c # pre @ s) = None" by (rule match_not_brace)
  with Cons show ?case by (simp split: sum.splits)
qed

lemma space_not_path: "is_space c \<Longrightarrow> \<not> is_path_char c"
  by (auto simp: is_space_def is_path_char_def is_word_char_def Let_def)

lemma path_not_space: "is_path_char c \<Longrightarrow> \<not> is_space c"
  using space_not_path by blast

lemma brace_neither: "\<not> is_space CHR ''}''" "\<not> is_path_char CHR ''}''"
  by (simp_all add: is_space_def is_path_char_def is_word_char_def)

lemma takeWhile_run:
  "list_all P xs \<Longrightarrow> ys = [] \<or> \<not> P (hd ys) \<Longrightarrow> takeWhile P (xs @ ys) = xs"
  by (induction xs) (cases ys, auto)

lemma dropWhile_run:
  "list_all P xs \<Longrightarrow> ys = [] \<or> \<not> P (hd ys) \<Longrightarrow> dropWhile P (xs @ ys) = ys"
  by (induction xs) (cases ys, auto)

lemma match_placeholder_shape:
  assumes ws: "list_all is_space ws1" "list_all is_space ws2"
    and path: "path \<noteq> []" "list_all is_path_char path"
  shows "match_placeholder (''{{'' @ ws1 @ path @ ws2 @ ''}}'' @ post) = Some (path, post)"
proof -
  let ?tail = "ws2 @ ''}}'' @ post"
  have hd_tail: "\<not> is_path_char (hd ?tail)"
    using ws(2) by (cases ws2) (simp_all add: brace_neither space_not_path)
  have hd_path: "\<not> is_space (hd (path @ ?tail))"
    using path by (cases path) (simp_all add: path_not_space)
  have r1: "dropWhile is_space (ws1 @ path @ ?tail) = path @ ?tail"
    using ws(1) hd_path by (intro dropWhile_run) simp_all
  have key: "takeWhile is_path_char (path @ ?tail) = path"
    using path(2) hd_tail by (intro takeWhile_run) simp_all
  have r2: "dropWhile is_path_char (path @ ?tail) = ?tail"
    using path(2) hd_tail by (intro dropWhile_run) simp_all
  have r3: "dropWhile is_space ?tail = ''}}'' @ post"
    using ws(2) by (intro dropWhile_run) (simp_all add: brace_neither)
  have "match_placeholder (''{{'' @ ws1 @ path @ ?tail)
          = (let r1 = dropWhile is_space (ws1 @ path @ ?tail);
                 key = takeWhile is_path_char r1;
                 r2 = dropWhile is_path_char r1;
                 r3 = dropWhile is_space r2
             in if key \<noteq> [] \<and> starts_with ''}}'' r3 then Some (key, drop 2 r3) else None)"
    by (simp add: match_placeholder_def)
  also have "\<dots> = Some (path, post)"
    unfolding Let_def r1 key r2 r3 using path(1) by (simp add: starts_with_def)
  finally show ?thesis .
qed

lemma replace_one:
  assumes "CHR ''{'' \<notin> set pre"
    and "list_all is_space ws1" "list_all is_space ws2"
    and "path \<noteq> []" "list_all is_path_char path"
  shows "replace_placeholders f (pre @ ''{{'' @ ws1 @ path @ ws2 @ ''}}'' @ post) =
     (case f path of
        Inl e \<Rightarrow> Inl e
      | Inr r \<Rightarrow> (case replace_placeholders f post of
                    Inl e \<Rightarrow> Inl e | Inr out \<Rightarrow> Inr (pre @ r @ out)))"
proof -
  have m: "match_placeholder (CHR ''{'' # CHR ''{'' # ws1 @ path @ ws2 @ ''}}'' @ post)
             = Some (path, post)"
    using match_placeholder_shape [OF assms(2-5), of post] by simp
  have "replace_placeholders f (''{{'' @ ws1 @ path @ ws2 @ ''}}'' @ post) =
     (case f path of
        Inl e \<Rightarrow> Inl e
      | Inr r \<Rightarrow> (case replace_placeholders f post of
                    Inl e \<Rightarrow> Inl e | Inr out \<Rightarrow> Inr (r @ out)))"
    using m by simp
  then show ?thesis
    by (simp only: replace_plain_prefix [OF assms(1)] split: sum.splits) (auto split: sum.splits)
qed

lemma replace_plain: "CHR ''{'' \<notin> set s \<Longrightarrow> replace_placeholders f s = Inr s"
  using replace_plain_prefix [of s f "[]"] by simp
lemma split_dot_from_prefix:
  "CHR ''.'' \<notin> set xs \<Longrightarrow>
   split_dot_from cur (xs @ CHR ''.'' # p) = (cur @ xs) # split_dot_from [] p"
  by (induction xs arbitrary: cur) auto

lemma split_dot_context: "split_dot (''context.'' @ p) = ''context'' # split_dot p"
  using split_dot_from_prefix [of "''context''" "[]" p] by (simp add: split_dot_def)

lemma foldl_path_step_undefined: "foldl (path_step h) JUndefined ks = JUndefined"
  by (induction ks) (simp_all add: path_step_def)

lemma wrapped_context_prefix:
  "getFromPath h (JObject None (fmupd ''context'' (JObject None ctx) fmempty)) (''context.'' @ p)
     = getFromPath h (JObject None ctx) p"
  unfolding getFromPath_def split_dot_context
  by (simp add: path_step_def js_get_def)

lemma decimal_snoc: "decimal (s @ [c]) = 10 * decimal s + (of_char c - 48)"
  by (simp add: decimal_def)

lemma of_char_digit: "d < 10 \<Longrightarrow> (of_char (char_of (48 + d :: nat)) :: nat) = 48 + d"
  by simp

lemma decimal_decimal_string: "decimal (decimal_string n) = n"
proof (induction n rule: decimal_string.induct)
  case (1 n)
  show ?case
  proof (cases "n < 10")
    case True
    then show ?thesis
      by (subst decimal_string.simps) (simp add: decimal_def)
  next
    case False
    have "(of_char (char_of (48 + n mod 10)) :: nat) = 48 + n mod 10"
      by (rule of_char_digit) simp
    then show ?thesis
      using False 1 by (subst decimal_string.simps) (simp add: decimal_snoc)
  qed
qed

lemma is_digit_char_of: "d < 10 \<Longrightarrow> is_digit (char_of (48 + d :: nat))"
  by (simp add: is_digit_def)

lemma decimal_string_digits: "list_all is_digit (decimal_string n) \<and> decimal_string n \<noteq> []"
proof (induction n rule: decimal_string.induct)
  case (1 n)
  show ?case
  proof (cases "n < 10")
    case True
    then show ?thesis by (subst (1 2) decimal_string.simps) (simp add: is_digit_char_of)
  next
    case False
    then show ?thesis
      using 1 by (subst (1 2) decimal_string.simps) (simp add: is_digit_char_of)
  qed
qed

lemma char_of_48: "char_of (48 :: nat) = CHR ''0''"
proof -
  have "(of_char CHR ''0'' :: nat) = 48" by simp
  then show ?thesis by (metis char_of_char)
qed

lemma decimal_string_zero: "decimal_string 0 = ''0''"
  by (subst decimal_string.simps) (simp add: char_of_48)

lemma char_of_48_inj: "d < 10 \<Longrightarrow> char_of (48 + d :: nat) = CHR ''0'' \<Longrightarrow> d = 0"
proof -
  assume d: "d < 10" and e: "char_of (48 + d :: nat) = CHR ''0''"
  have "(of_char (char_of (48 + d :: nat)) :: nat) = of_char CHR ''0''" using e by simp
  then show "d = 0" using d by simp
qed

lemma decimal_string_hd: "0 < n \<Longrightarrow> hd (decimal_string n) \<noteq> CHR ''0''"
proof (induction n rule: decimal_string.induct)
  case (1 n)
  show ?case
  proof (cases "n < 10")
    case True
    then show ?thesis
      using 1(2) char_of_48_inj [of n] by (subst decimal_string.simps) auto
  next
    case False
    then have "0 < n div 10" by simp
    then have "hd (decimal_string (n div 10)) \<noteq> CHR ''0''" using 1 False by simp
    moreover have "decimal_string (n div 10) \<noteq> []" using decimal_string_digits by blast
    ultimately show ?thesis
      using False by (subst decimal_string.simps) simp
  qed
qed

lemma array_index_decimal_string: "array_index (decimal_string n) = Some n"
proof (cases "n = 0")
  case True
  then show ?thesis by (simp add: decimal_string_zero array_index_def)
next
  case False
  then have h: "hd (decimal_string n) \<noteq> CHR ''0''" by (simp add: decimal_string_hd)
  have "decimal_string n \<noteq> ''0''"
  proof
    assume "decimal_string n = ''0''"
    then have "hd (decimal_string n) = CHR ''0''" by simp
    with h show False by blast
  qed
  then show ?thesis
    using h decimal_string_digits [of n]
    by (simp add: array_index_def decimal_decimal_string)
qed

lemma digit_char: "is_digit c \<Longrightarrow> char_of (48 + ((of_char c :: nat) - 48)) = c"
  by (simp add: is_digit_def)

lemma digit_value: "is_digit c \<Longrightarrow> (of_char c :: nat) - 48 < 10"
  by (auto simp: is_digit_def)

lemma digit_zero: "is_digit c \<Longrightarrow> (of_char c :: nat) - 48 = 0 \<Longrightarrow> c = CHR ''0''"
proof -
  assume d: "is_digit c" and z: "(of_char c :: nat) - 48 = 0"
  from digit_char [OF d] z show "c = CHR ''0''" by (simp add: char_of_48)
qed

lemma canonical_decimal:
  "s \<noteq> [] \<Longrightarrow> list_all is_digit s \<Longrightarrow> hd s \<noteq> CHR ''0'' \<Longrightarrow>
     0 < decimal s \<and> decimal_string (decimal s) = s"
proof (induction s rule: rev_induct)
  case Nil
  then show ?case by simp
next
  case (snoc c s)
  from snoc.prems have c: "is_digit c" and s: "list_all is_digit s" by simp_all
  let ?d = "(of_char c :: nat) - 48"
  have d: "?d < 10" using c by (rule digit_value)
  show ?case
  proof (cases "s = []")
    case True
    then have "c \<noteq> CHR ''0''" using snoc.prems by simp
    then have pos: "0 < ?d" using digit_zero [OF c] by (cases "?d = 0") simp_all
    have "decimal_string ?d = [c]"
      using d digit_char [OF c] by (subst decimal_string.simps) simp
    then show ?thesis using True pos by (simp add: decimal_def)
  next
    case False
    then have "hd s \<noteq> CHR ''0''" using snoc.prems by simp
    with snoc.IH False s have ih: "0 < decimal s" "decimal_string (decimal s) = s" by simp_all
    let ?n = "10 * decimal s + ?d"
    have n: "\<not> ?n < 10" using ih(1) by simp
    have "?n div 10 = decimal s" "?n mod 10 = ?d" using d by simp_all
    then have "decimal_string ?n = s @ [c]"
      using n ih(2) digit_char [OF c] by (subst decimal_string.simps) simp
    then show ?thesis using ih(1) by (simp add: decimal_snoc)
  qed
qed

lemma array_index_Some:
  assumes "array_index k = Some i"
  shows "decimal_string i = k"
proof (cases "k = ''0''")
  case True
  then have "i = 0" using assms by (simp add: array_index_def)
  then show ?thesis using True by (simp only: decimal_string_zero)
next
  case False
  then have c: "k \<noteq> []" "list_all is_digit k" "hd k \<noteq> CHR ''0''" and i: "i = decimal k"
    using assms unfolding array_index_def by (simp_all split: if_splits)
  from canonical_decimal [OF c] i show ?thesis by simp
qed

lemma find_decimal_string:
  "find (\<lambda>i. decimal_string i = k) [0..<n]
     = (case array_index k of Some i \<Rightarrow> if i < n then Some i else None | None \<Rightarrow> None)"
proof (cases "array_index k")
  case None
  have "decimal_string i \<noteq> k" for i
  proof
    assume "decimal_string i = k"
    then have "array_index k = Some i" using array_index_decimal_string [of i] by simp
    with None show False by simp
  qed
  then have "find (\<lambda>i. decimal_string i = k) [0..<n] = None"
    unfolding find_None_iff by blast
  then show ?thesis unfolding None by simp
next
  case (Some i)
  have k: "decimal_string i = k" using Some by (rule array_index_Some)
  have uniq: "j = i" if "decimal_string j = k" for j
  proof -
    from that have "array_index k = Some j" using array_index_decimal_string [of j] by simp
    with Some show ?thesis by simp
  qed
  show ?thesis
  proof (cases "i < n")
    case True
    have "find (\<lambda>i. decimal_string i = k) [0..<n] = Some i"
      unfolding find_Some_iff
    proof (intro exI [of _ i] conjI allI impI)
      show "i < length [0..<n]" using True by simp
      show "decimal_string ([0..<n] ! i) = k" using True k by simp
      show "i = [0..<n] ! i" using True by simp
    next
      fix j
      assume j: "j < i"
      then have "[0..<n] ! j = j" using True by simp
      moreover have "decimal_string j \<noteq> k" using uniq [of j] j by blast
      ultimately show "decimal_string ([0..<n] ! j) \<noteq> k" by simp
    qed
    then show ?thesis unfolding Some using True by simp
  next
    case False
    have "decimal_string j \<noteq> k" if "j \<in> set [0..<n]" for j
      using uniq [of j] that False by auto
    then have "find (\<lambda>i. decimal_string i = k) [0..<n] = None"
      unfolding find_None_iff by blast
    then show ?thesis unfolding Some using False by simp
  qed
qed

lemma array_index_length: "array_index ''length'' = None"
  by (simp add: array_index_def is_digit_def)

lemma path_step_property: "path_step h v k = property_of h v k"
proof (cases v)
  case (JObject a m)
  show ?thesis
  proof (cases a)
    case None
    then show ?thesis unfolding JObject
      by (simp add: path_step_def property_of_def js_get_def inherited_property_def
            split: option.splits)
  next
    case (Some xs)
    show ?thesis
    proof (cases "k = ''length''")
      case True
      then show ?thesis unfolding JObject Some
        by (simp add: path_step_def property_of_def js_get_def array_own_def
              find_decimal_string array_index_length)
    next
      case False
      show ?thesis
      proof (cases "array_index k")
        case None
        then show ?thesis unfolding JObject Some using False
          by (simp add: path_step_def property_of_def js_get_def array_own_def
                find_decimal_string inherited_property_def split: option.splits)
      next
        case (Some i)
        then show ?thesis unfolding JObject \<open>a = Some xs\<close> using False
          by (simp add: path_step_def property_of_def js_get_def array_own_def
                find_decimal_string inherited_property_def split: option.splits)
      qed
    qed
  qed
qed (simp_all add: path_step_def property_of_def js_get_def)

lemma split_dot_from_plain: "CHR ''.'' \<notin> set k \<Longrightarrow> split_dot_from cur k = [cur @ k]"
  by (induction k arbitrary: cur) auto

lemma getFromPath_piece:
  "CHR ''.'' \<notin> set k \<Longrightarrow> getFromPath h v k = property_of h v k"
  by (simp add: getFromPath_def split_dot_def split_dot_from_plain path_step_property)

lemma getFromPath_pieces:
  "CHR ''.'' \<notin> set k \<Longrightarrow>
   getFromPath h v (k @ ''.'' @ p) = getFromPath h (property_of h v k) p"
  using split_dot_from_prefix [of k "[]" p]
  by (simp add: getFromPath_def split_dot_def path_step_property)

lemma takeWhile_all: "list_all P (takeWhile P xs)"
  by (induction xs) simp_all

lemma js_trim_decompose:
  "\<exists>ws1 ws2. s = ws1 @ js_trim s @ ws2 \<and> list_all is_space ws1 \<and> list_all is_space ws2"
proof -
  define d where "d = dropWhile is_space s"
  have s: "s = takeWhile is_space s @ d" unfolding d_def by simp
  have "rev (takeWhile is_space (rev d) @ dropWhile is_space (rev d)) = rev (rev d)"
    by (simp only: takeWhile_dropWhile_id)
  then have "rev (dropWhile is_space (rev d)) @ rev (takeWhile is_space (rev d)) = d"
    by (simp only: rev_append rev_rev_ident)
  then have d: "d = js_trim s @ rev (takeWhile is_space (rev d))"
    unfolding js_trim_def d_def by (rule sym)
  have 1: "list_all is_space (takeWhile is_space s)" by (rule takeWhile_all)
  have "list_all is_space (takeWhile is_space (rev d))" by (rule takeWhile_all)
  then have 2: "list_all is_space (rev (takeWhile is_space (rev d)))"
    by (simp add: list_all_iff)
  have "s = takeWhile is_space s @ js_trim s @ rev (takeWhile is_space (rev d))"
    by (subst s, subst d) (rule refl)
  with 1 2 show ?thesis by blast
qed

lemma js_trim_core:
  assumes "list_all is_space ws1" "list_all is_space ws2"
    and "path \<noteq> []" "list_all is_path_char path"
  shows "js_trim (ws1 @ path @ ws2) = path"
proof -
  have hd_path: "\<not> is_space (hd (path @ ws2))"
    using assms(3,4) by (cases path) (simp_all add: path_not_space)
  have 1: "dropWhile is_space (ws1 @ path @ ws2) = path @ ws2"
    using assms(1) hd_path by (intro dropWhile_run) simp_all
  have "last path \<in> set path" using assms(3) by simp
  then have "\<not> is_space (last path)"
    using assms(4) by (simp add: list_all_iff path_not_space)
  then have hd_rev: "\<not> is_space (hd (rev path))"
    using assms(3) by (simp add: hd_rev)
  have "list_all is_space (rev ws2)" using assms(2) by (simp add: list_all_iff)
  then have 2: "dropWhile is_space (rev ws2 @ rev path) = rev path"
    using hd_rev by (intro dropWhile_run) simp_all
  show ?thesis unfolding js_trim_def 1 by (simp add: 2)
qed

lemma braces_decompose:
  assumes "4 \<le> length occ" "take 2 occ = ''{{''" "drop (length occ - 2) occ = ''}}''"
  shows "occ = ''{{'' @ take (length occ - 4) (drop 2 occ) @ ''}}''"
proof -
  have "length occ - 4 + 2 = length occ - 2" using assms(1) by simp
  then have "drop (length occ - 4) (drop 2 occ) = ''}}''"
    using assms(3) by (simp only: drop_drop)
  moreover have "take (length occ - 4) (drop 2 occ) @ drop (length occ - 4) (drop 2 occ) = drop 2 occ"
    by (rule append_take_drop_id)
  ultimately have "drop 2 occ = take (length occ - 4) (drop 2 occ) @ ''}}''"
    by (simp only:)
  moreover have "take 2 occ @ drop 2 occ = occ" by (rule append_take_drop_id)
  ultimately show ?thesis using assms(2) by (simp only:)
qed

lemma inner_of_braces:
  "take (length (''{{'' @ inner @ ''}}'') - 4) (drop 2 (''{{'' @ inner @ ''}}'')) = inner"
  by simp

lemma is_placeholder_iff:
  "is_placeholder occ \<longleftrightarrow>
     (\<exists>ws1 ws2. occ = ''{{'' @ ws1 @ placeholder_path occ @ ws2 @ ''}}''
        \<and> list_all is_space ws1 \<and> list_all is_space ws2)
     \<and> placeholder_path occ \<noteq> [] \<and> list_all is_path_char (placeholder_path occ)"
  (is "?L \<longleftrightarrow> ?R")
proof
  assume l: ?L
  then have b: "4 \<le> length occ" "take 2 occ = ''{{''" "drop (length occ - 2) occ = ''}}''"
    and p: "placeholder_path occ \<noteq> []" "list_all is_path_char (placeholder_path occ)"
    unfolding is_placeholder_def by simp_all
  define inner where "inner = take (length occ - 4) (drop 2 occ)"
  have occ: "occ = ''{{'' @ inner @ ''}}''"
    unfolding inner_def using braces_decompose [OF b] .
  have path: "placeholder_path occ = js_trim inner"
    unfolding placeholder_path_def inner_def ..
  obtain ws1 ws2 where i: "inner = ws1 @ js_trim inner @ ws2"
    and w: "list_all is_space ws1" "list_all is_space ws2"
    using js_trim_decompose [of inner] by blast
  have "occ = ''{{'' @ (ws1 @ js_trim inner @ ws2) @ ''}}''"
    using occ i by (simp only:)
  then have "occ = ''{{'' @ ws1 @ placeholder_path occ @ ws2 @ ''}}''"
    unfolding path by simp
  with w p show ?R by blast
next
  assume r: ?R
  define path where "path = placeholder_path occ"
  from r obtain ws1 ws2 where occ: "occ = ''{{'' @ ws1 @ path @ ws2 @ ''}}''"
    and p: "path \<noteq> []" "list_all is_path_char path"
    unfolding path_def by blast
  define inner where "inner = ws1 @ path @ ws2"
  have oi: "occ = ''{{'' @ inner @ ''}}''" unfolding occ inner_def by simp
  have len: "4 \<le> length occ" unfolding oi by simp
  have t: "take 2 occ = ''{{''" unfolding oi by simp
  have d: "drop (length occ - 2) occ = ''}}''" unfolding oi by simp
  show ?L unfolding is_placeholder_def path_def [symmetric] using len t d p by simp
qed

lemma placeholder_shape:
  assumes "list_all is_space ws1" "list_all is_space ws2"
    and "path \<noteq> []" "list_all is_path_char path"
  shows "is_placeholder (''{{'' @ ws1 @ path @ ws2 @ ''}}'')"
    and "placeholder_path (''{{'' @ ws1 @ path @ ws2 @ ''}}'') = path"
proof -
  have "placeholder_path (''{{'' @ (ws1 @ path @ ws2) @ ''}}'') = js_trim (ws1 @ path @ ws2)"
    unfolding placeholder_path_def inner_of_braces ..
  then have p: "placeholder_path (''{{'' @ ws1 @ path @ ws2 @ ''}}'') = path"
    using js_trim_core [OF assms] by simp
  show "placeholder_path (''{{'' @ ws1 @ path @ ws2 @ ''}}'') = path" by (rule p)
  show "is_placeholder (''{{'' @ ws1 @ path @ ws2 @ ''}}'')"
    unfolding is_placeholder_iff p using assms by blast
qed

lemma match_placeholder_Some:
  assumes "match_placeholder s = Some (key, rest)"
  shows "\<exists>ws1 ws2. s = ''{{'' @ ws1 @ key @ ws2 @ ''}}'' @ rest
           \<and> list_all is_space ws1 \<and> list_all is_space ws2
           \<and> key \<noteq> [] \<and> list_all is_path_char key"
proof -
  from assms obtain r where s: "s = CHR ''{'' # CHR ''{'' # r"
    by (auto simp: match_placeholder_def split: list.splits if_splits)
  define r1 where "r1 = dropWhile is_space r"
  define r2 where "r2 = dropWhile is_path_char r1"
  define r3 where "r3 = dropWhile is_space r2"
  from assms have key: "key = takeWhile is_path_char r1" "key \<noteq> []"
    and st: "starts_with ''}}'' r3" and rest: "rest = drop 2 r3"
    unfolding s match_placeholder_def Let_def r1_def r2_def r3_def
    by (auto split: if_splits)
  have l: "length ''}}'' = 2" by simp
  have t: "take 2 r3 = ''}}''" using st unfolding starts_with_def l .
  have "take 2 r3 @ drop 2 r3 = r3" by (rule append_take_drop_id)
  then have r3: "r3 = ''}}'' @ rest" unfolding t rest by (rule sym)
  have "r = takeWhile is_space r @ r1" unfolding r1_def by simp
  moreover have "r1 = key @ r2" unfolding key r2_def by simp
  moreover have "r2 = takeWhile is_space r2 @ r3" unfolding r3_def by simp
  ultimately have "r = takeWhile is_space r @ key @ takeWhile is_space r2 @ ''}}'' @ rest"
    unfolding r3 by (metis append.assoc)
  then have "s = ''{{'' @ takeWhile is_space r @ key @ takeWhile is_space r2 @ ''}}'' @ rest"
    unfolding s by simp
  moreover have "list_all is_space (takeWhile is_space r)"
    "list_all is_space (takeWhile is_space r2)" "list_all is_path_char key"
    unfolding key by (rule takeWhile_all)+
  ultimately show ?thesis using key(2) by blast
qed

lemma starts_placeholder_iff: "starts_placeholder s \<longleftrightarrow> match_placeholder s \<noteq> None"
proof
  assume "starts_placeholder s"
  then obtain n where n: "is_placeholder (take n s)"
    unfolding starts_placeholder_def list_ex_iff by blast
  define path where "path = placeholder_path (take n s)"
  from n obtain ws1 ws2 where
    occ: "take n s = ''{{'' @ ws1 @ path @ ws2 @ ''}}''"
    and sh: "list_all is_space ws1" "list_all is_space ws2"
      "path \<noteq> []" "list_all is_path_char path"
    unfolding is_placeholder_iff path_def by blast
  have "take n s @ drop n s = s" by (rule append_take_drop_id)
  then have "s = ''{{'' @ ws1 @ path @ ws2 @ ''}}'' @ drop n s"
    unfolding occ by simp
  then have "match_placeholder s = Some (path, drop n s)"
    using match_placeholder_shape [OF sh, of "drop n s"] by simp
  then show "match_placeholder s \<noteq> None" by simp
next
  assume "match_placeholder s \<noteq> None"
  then obtain key rest where "match_placeholder s = Some (key, rest)" by auto
  from match_placeholder_Some [OF this] obtain ws1 ws2 where
    s: "s = ''{{'' @ ws1 @ key @ ws2 @ ''}}'' @ rest"
    and sh: "list_all is_space ws1" "list_all is_space ws2" "key \<noteq> []" "list_all is_path_char key"
    by blast
  define occ where "occ = ''{{'' @ ws1 @ key @ ws2 @ ''}}''"
  have so: "s = occ @ rest" unfolding occ_def s by simp
  have "is_placeholder occ" unfolding occ_def using sh by (rule placeholder_shape(1))
  moreover have "take (length occ) s = occ" unfolding so by simp
  moreover have "length occ \<in> set [0..<Suc (length s)]" unfolding so by simp
  ultimately show "starts_placeholder s"
    unfolding starts_placeholder_def list_ex_iff by metis
qed

lemma replace_no_placeholder:
  assumes "\<not> starts_placeholder (c # cs)"
  shows "replace_placeholders f (c # cs) = map_sum id ((#) c) (replace_placeholders f cs)"
proof -
  have m: "match_placeholder (c # cs) = None"
    using assms unfolding starts_placeholder_iff by blast
  show ?thesis by (cases "replace_placeholders f cs") (simp_all add: m)
qed

lemma replace_placeholder:
  assumes "is_placeholder occ"
  shows "replace_placeholders f (occ @ post) =
     (case f (placeholder_path occ) of
        Inl e \<Rightarrow> Inl e
      | Inr r \<Rightarrow> map_sum id ((@) r) (replace_placeholders f post))"
proof -
  define path where "path = placeholder_path occ"
  from assms obtain ws1 ws2 where
    occ: "occ = ''{{'' @ ws1 @ path @ ws2 @ ''}}''"
    and sh: "list_all is_space ws1" "list_all is_space ws2"
      "path \<noteq> []" "list_all is_path_char path"
    unfolding is_placeholder_iff path_def by blast
  have "replace_placeholders f (occ @ post)
      = replace_placeholders f ([] @ ''{{'' @ ws1 @ path @ ws2 @ ''}}'' @ post)"
    unfolding occ by simp
  also have "\<dots> = (case f path of
        Inl e \<Rightarrow> Inl e
      | Inr r \<Rightarrow> (case replace_placeholders f post of
                    Inl e \<Rightarrow> Inl e | Inr out \<Rightarrow> Inr ([] @ r @ out)))"
    using sh by (intro replace_one) simp_all
  also have "\<dots> = (case f path of
        Inl e \<Rightarrow> Inl e
      | Inr r \<Rightarrow> map_sum id ((@) r) (replace_placeholders f post))"
    by (cases "f path"; cases "replace_placeholders f post") simp_all
  finally show ?thesis unfolding path_def .
qed

lemma replace_prefix:
  "list_all (\<lambda>i. \<not> starts_placeholder (drop i (pre @ s))) [0..<length pre] \<Longrightarrow>
   replace_placeholders f (pre @ s) = map_sum id ((@) pre) (replace_placeholders f s)"
proof (induction pre)
  case Nil
  show ?case by (cases "replace_placeholders f s") simp_all
next
  case (Cons c pre)
  from Cons.prems
  have all: "\<not> starts_placeholder (drop i (c # pre @ s))" if "i < Suc (length pre)" for i
    using that unfolding list_all_iff by (auto simp del: upt_Suc)
  from all [of 0] have first: "\<not> starts_placeholder (c # pre @ s)" by simp
  have "list_all (\<lambda>i. \<not> starts_placeholder (drop i (pre @ s))) [0..<length pre]"
    unfolding list_all_iff
  proof
    fix i assume "i \<in> set [0..<length pre]"
    then have "Suc i < Suc (length pre)" by simp
    from all [OF this] show "\<not> starts_placeholder (drop i (pre @ s))" by simp
  qed
  from Cons.IH [OF this] replace_no_placeholder [OF first, of f]
  show ?case by (cases "replace_placeholders f s") simp_all
qed

lemma getFromPath_undefined: "getFromPath h JUndefined p = JUndefined"
  by (simp add: getFromPath_def foldl_path_step_undefined)

lemma wrapped_other_piece:
  assumes "CHR ''.'' \<notin> set k" "k \<noteq> ''context''" "inherited h False k = None"
  shows "getFromPath h (JObject None (fmupd ''context'' (JObject None ctx) fmempty)) k = JUndefined"
    and "getFromPath h (JObject None (fmupd ''context'' (JObject None ctx) fmempty)) (k @ ''.'' @ p)
         = JUndefined"
proof -
  have "property_of h (JObject None (fmupd ''context'' (JObject None ctx) fmempty)) k = JUndefined"
    using assms(2,3) by (simp add: property_of_def inherited_property_def)
  then show "getFromPath h (JObject None (fmupd ''context'' (JObject None ctx) fmempty)) k = JUndefined"
    and "getFromPath h (JObject None (fmupd ''context'' (JObject None ctx) fmempty)) (k @ ''.'' @ p)
         = JUndefined"
    unfolding getFromPath_piece [OF assms(1)] getFromPath_pieces [OF assms(1)]
    by (simp_all add: getFromPath_undefined)
qed

text \<open>
  C7, amended: \<^verbatim>\<open>tpl\<close> goes through the template from left to right. Where the text starts
  with a placeholder, \<^verbatim>\<open>{{\<close>, a path with optional white space on both sides, \<^verbatim>\<open>}}\<close>, the
  path a non-empty run of word characters, dots and brackets, the placeholder is replaced
  by its value and the interpolation goes on after it; a character at which no placeholder
  starts is kept, a lone brace included, so the text before the first placeholder is left
  as it is. The value is looked up along the dot-separated path, piece by piece as the
  property of the value reached so far (\<open>property_of\<close>: the entry of an object under the
  key, the element of an array under its decimal index, else the length, an own entry or an
  inherited property; nothing below a primitive), first in the object \<^verbatim>\<open>{context}\<close>, so that
  a leading \<^verbatim>\<open>context.\<close> names the session context itself, and, when that gives undefined
  or null, in the session context directly; for a path whose first piece is not \<^verbatim>\<open>context\<close>
  and is not inherited this is the value at the path in the context. A placeholder whose
  value is undefined or null is replaced by the empty string, any other by the string form
  of its value.
\<close>

theorem template_interpolation:
  "tpl h ctx None = Inr '''' \<and> tpl h ctx (Some '''') = Inr ''''
   \<and> (\<not> starts_placeholder (c # cs) \<longrightarrow>
        tpl h ctx (Some (c # cs)) = map_sum id ((#) c) (tpl h ctx (Some cs)))
   \<and> (is_placeholder occ \<longrightarrow>
        tpl h ctx (Some (occ @ post)) =
          (case render h ctx (placeholder_path occ) of
             Inl e \<Rightarrow> Inl e
           | Inr r \<Rightarrow> map_sum id ((@) r) (tpl h ctx (Some post))))
   \<and> (list_all (\<lambda>i. \<not> starts_placeholder (drop i (pre @ s))) [0..<length pre] \<longrightarrow>
        tpl h ctx (Some (pre @ s)) = map_sum id ((@) pre) (tpl h ctx (Some s)))
   \<and> (is_placeholder occ \<longleftrightarrow>
        (\<exists>ws1 ws2. occ = ''{{'' @ ws1 @ placeholder_path occ @ ws2 @ ''}}''
           \<and> list_all is_space ws1 \<and> list_all is_space ws2)
        \<and> placeholder_path occ \<noteq> [] \<and> list_all is_path_char (placeholder_path occ))
   \<and> (starts_placeholder s \<longleftrightarrow> (\<exists>n\<le>length s. is_placeholder (take n s)))
   \<and> render h ctx path =
       (let wrapped = getFromPath h (JObject None (fmupd ''context'' (JObject None ctx) fmempty)) path;
            v = (if is_nullish wrapped then getFromPath h (JObject None ctx) path else wrapped)
        in if is_nullish v then Inr '''' else js_String h v)
   \<and> (CHR ''.'' \<notin> set k \<longrightarrow>
        getFromPath h v k = property_of h v k
        \<and> getFromPath h v (k @ ''.'' @ p) = getFromPath h (property_of h v k) p)
   \<and> getFromPath h (JObject None (fmupd ''context'' (JObject None ctx) fmempty)) (''context.'' @ p)
       = getFromPath h (JObject None ctx) p
   \<and> (CHR ''.'' \<notin> set k \<and> k \<noteq> ''context'' \<and> inherited h False k = None \<longrightarrow>
        render h ctx k =
          (if is_nullish (getFromPath h (JObject None ctx) k) then Inr ''''
           else js_String h (getFromPath h (JObject None ctx) k))
        \<and> render h ctx (k @ ''.'' @ p) =
          (if is_nullish (getFromPath h (JObject None ctx) (k @ ''.'' @ p)) then Inr ''''
           else js_String h (getFromPath h (JObject None ctx) (k @ ''.'' @ p))))"
proof (intro conjI impI)
  show "tpl h ctx None = Inr ''''" "tpl h ctx (Some '''') = Inr ''''"
    by (simp_all add: tpl_def)
next
  assume "\<not> starts_placeholder (c # cs)"
  then show "tpl h ctx (Some (c # cs)) = map_sum id ((#) c) (tpl h ctx (Some cs))"
    unfolding tpl_def option.case by (rule replace_no_placeholder)
next
  assume "is_placeholder occ"
  then show "tpl h ctx (Some (occ @ post)) =
          (case render h ctx (placeholder_path occ) of
             Inl e \<Rightarrow> Inl e
           | Inr r \<Rightarrow> map_sum id ((@) r) (tpl h ctx (Some post)))"
    unfolding tpl_def option.case by (rule replace_placeholder)
next
  assume "list_all (\<lambda>i. \<not> starts_placeholder (drop i (pre @ s))) [0..<length pre]"
  then show "tpl h ctx (Some (pre @ s)) = map_sum id ((@) pre) (tpl h ctx (Some s))"
    unfolding tpl_def option.case by (rule replace_prefix)
next
  show "is_placeholder occ \<longleftrightarrow>
        (\<exists>ws1 ws2. occ = ''{{'' @ ws1 @ placeholder_path occ @ ws2 @ ''}}''
           \<and> list_all is_space ws1 \<and> list_all is_space ws2)
        \<and> placeholder_path occ \<noteq> [] \<and> list_all is_path_char (placeholder_path occ)"
    by (rule is_placeholder_iff)
next
  show "starts_placeholder s \<longleftrightarrow> (\<exists>n\<le>length s. is_placeholder (take n s))"
    unfolding starts_placeholder_def list_ex_iff set_upt by (auto simp: less_Suc_eq_le)
next
  show "render h ctx path =
       (let wrapped = getFromPath h (JObject None (fmupd ''context'' (JObject None ctx) fmempty)) path;
            v = (if is_nullish wrapped then getFromPath h (JObject None ctx) path else wrapped)
        in if is_nullish v then Inr '''' else js_String h v)"
    by (simp add: render_def)
next
  assume "CHR ''.'' \<notin> set k"
  then show "getFromPath h v k = property_of h v k"
    by (rule getFromPath_piece)
next
  assume "CHR ''.'' \<notin> set k"
  then show "getFromPath h v (k @ ''.'' @ p) = getFromPath h (property_of h v k) p"
    by (rule getFromPath_pieces)
next
  show "getFromPath h (JObject None (fmupd ''context'' (JObject None ctx) fmempty)) (''context.'' @ p)
       = getFromPath h (JObject None ctx) p"
    by (rule wrapped_context_prefix)
next
  assume a: "CHR ''.'' \<notin> set k \<and> k \<noteq> ''context'' \<and> inherited h False k = None"
  then have "getFromPath h (JObject None (fmupd ''context'' (JObject None ctx) fmempty)) k = JUndefined"
    using wrapped_other_piece(1) [of k h ctx] by simp
  then show "render h ctx k =
          (if is_nullish (getFromPath h (JObject None ctx) k) then Inr ''''
           else js_String h (getFromPath h (JObject None ctx) k))"
    by (simp add: render_def Let_def is_nullish_def)
next
  assume a: "CHR ''.'' \<notin> set k \<and> k \<noteq> ''context'' \<and> inherited h False k = None"
  then have "getFromPath h (JObject None (fmupd ''context'' (JObject None ctx) fmempty)) (k @ ''.'' @ p)
      = JUndefined"
    using wrapped_other_piece(2) [of k h ctx p] by simp
  then show "render h ctx (k @ ''.'' @ p) =
          (if is_nullish (getFromPath h (JObject None ctx) (k @ ''.'' @ p)) then Inr ''''
           else js_String h (getFromPath h (JObject None ctx) (k @ ''.'' @ p)))"
    by (simp add: render_def Let_def is_nullish_def)
qed

theorem template_interpolation_witness:
  "tpl example_host example_context (Some ''a { {{ apiResult.items.0.name}}!'') = Inr ''a { Ana!''
   \<and> getFromPath example_host (JObject None example_context) ''apiResult.items.0.name''
       = JStr ''Ana''
   \<and> is_placeholder ''{{ apiResult.items.0.name}}''
   \<and> \<not> starts_placeholder ''{ {{ apiResult.items.0.name}}!''"
proof -
  note T = template_interpolation [of example_host example_context "CHR ''!''" "[]"
      "''{{ apiResult.items.0.name}}''" "''!''" "''a { ''" "''{{ apiResult.items.0.name}}!''"
      "''x''" "''apiResult''" "JObject None example_context" "''items.0.name''"]
  have occ: "is_placeholder ''{{ apiResult.items.0.name}}''" by code_simp
  have path: "placeholder_path ''{{ apiResult.items.0.name}}'' = ''apiResult.items.0.name''"
    by code_simp
  have pre: "list_all (\<lambda>i. \<not> starts_placeholder (drop i (''a { '' @ ''{{ apiResult.items.0.name}}!'')))
      [0..<length ''a { '']"
    by code_simp
  have lone: "\<not> starts_placeholder ''{ {{ apiResult.items.0.name}}!''" by code_simp
  have bang: "\<not> starts_placeholder (CHR ''!'' # [])" by code_simp
  have piece: "CHR ''.'' \<notin> set ''apiResult''" by simp
  have first: "CHR ''.'' \<notin> set ''apiResult'' \<and> ''apiResult'' \<noteq> ''context''
      \<and> inherited example_host False ''apiResult'' = None"
    by (simp add: example_host_def)
  note empty = T [THEN conjunct2, THEN conjunct1]
  note plain = T [THEN conjunct2, THEN conjunct2, THEN conjunct1, THEN mp, OF bang]
  note place = T [THEN conjunct2, THEN conjunct2, THEN conjunct2, THEN conjunct1, THEN mp, OF occ]
  note before = T [THEN conjunct2, THEN conjunct2, THEN conjunct2, THEN conjunct2, THEN conjunct1,
      THEN mp, OF pre]
  note pieces = T [THEN conjunct2, THEN conjunct2, THEN conjunct2, THEN conjunct2, THEN conjunct2,
      THEN conjunct2, THEN conjunct2, THEN conjunct2, THEN conjunct1, THEN mp, OF piece,
      THEN conjunct2]
  note rendered = T [THEN conjunct2, THEN conjunct2, THEN conjunct2, THEN conjunct2, THEN conjunct2,
      THEN conjunct2, THEN conjunct2, THEN conjunct2, THEN conjunct2, THEN conjunct2, THEN mp,
      OF first, THEN conjunct2]
  have "getFromPath example_host
          (property_of example_host (JObject None example_context) ''apiResult'') ''items.0.name''
        = JStr ''Ana''"
    by (simp add: getFromPath_def split_dot_def path_step_def js_get_def example_context_def
          property_of_def JObj_def JArr_def array_own_def array_index_def example_host_def)
  then have v: "getFromPath example_host (JObject None example_context)
        (''apiResult'' @ ''.'' @ ''items.0.name'') = JStr ''Ana''"
    unfolding pieces .
  have r: "render example_host example_context (''apiResult'' @ ''.'' @ ''items.0.name'') = Inr ''Ana''"
    unfolding rendered v by (simp add: is_nullish_def js_String_def)
  have "tpl example_host example_context (Some (''a { '' @ ''{{ apiResult.items.0.name}}!''))
      = Inr ''a { Ana!''"
    unfolding before
    using place plain empty r path by simp
  then have "tpl example_host example_context (Some ''a { {{ apiResult.items.0.name}}!'')
      = Inr ''a { Ana!''"
    by simp
  moreover have "getFromPath example_host (JObject None example_context) ''apiResult.items.0.name''
      = JStr ''Ana''"
    using v by simp
  ultimately show ?thesis using occ lone by (intro conjI)
qed

text \<open>
  C7, as stated, fails: in a context with \<^verbatim>\<open>lastUserMessage\<close> = Hola the path
  \<^verbatim>\<open>context.lastUserMessage\<close> resolves to no value in the context, yet the occurrence is
  replaced by Hola, not by the empty string.
\<close>

theorem template_context_prefix_counterexample:
  "getFromPath example_host (JObject None example_context) ''context.lastUserMessage'' = JUndefined
   \<and> tpl example_host example_context (Some ''Hi, {{context.lastUserMessage}}!'') = Inr ''Hi, Hola!''"
  by (simp add: tpl_def match_placeholder_def is_space_def is_path_char_def is_word_char_def
        starts_with_def render_def getFromPath_def split_dot_def path_step_def js_get_def
        example_context_def is_nullish_def js_String_def example_host_def Let_def)

subsection \<open>Allow-list enrollment\<close>

lemma try_allow_list_paths_counts:
  "try_allow_list_paths w ps le k = (r, k')
     \<Longrightarrow> enrollments k' = enrollments k \<and> sends k' = sends k \<and> lookups k' = lookups k
         \<and> sent k' = sent k"
proof (induction ps arbitrary: le k)
  case Nil
  then show ?case by (auto split: option.splits)
next
  case (Cons p ps)
  let ?k1 = "k\<lparr>allow_list_posts := Suc (allow_list_posts k)\<rparr>"
  from Cons.prems consider "k' = ?k1"
    | le' where "try_allow_list_paths w ps le' ?k1 = (r, k')"
    by (auto simp: Let_def split: fetch_result.splits if_splits)
  then show ?case
  proof cases
    case 1
    then show ?thesis by simp
  next
    case 2
    from Cons.IH [OF 2] show ?thesis by simp
  qed
qed

lemma addRecipientToAllowList_counts:
  "addRecipientToAllowList w k = (r, k')
     \<Longrightarrow> enrollments k' = Suc (enrollments k) \<and> sends k' = sends k \<and> lookups k' = lookups k
         \<and> sent k' = sent k"
  unfolding addRecipientToAllowList_def
  by (drule try_allow_list_paths_counts) simp

lemma send_pass_attempted:
  "send_pass w k dest message True = (p, k')
     \<Longrightarrow> (\<exists>r. p = Done r) \<and> enrollments k' = enrollments k \<and> sends k' \<le> Suc (sends k)"
  by (auto simp: send_pass_def Let_def split: option.splits fetch_result.splits if_splits)

lemma send_pass_retry:
  assumes "send_pass w k dest message attempted = (Retry nt, k')"
  shows "\<not> attempted \<and> normalizePhone (Some dest) = Some nt
         \<and> enrollments k' = Suc (enrollments k) \<and> sends k' = Suc (sends k)
         \<and> sent k' = sent k @ [(nt, message)]
         \<and> (\<exists>r. post_messages w (sends k) = Reply r \<and> \<not> reply_ok r \<and> reply_status r = 400
                 \<and> error_code r = Some 131030)"
proof -
  from assms obtain r k2 where
    n: "normalizePhone (Some dest) = Some nt"
    and na: "\<not> attempted"
    and k2: "k2 = k\<lparr>lookups := Suc (lookups k), sends := Suc (sends k),
                     sent := sent k @ [(nt, message)]\<rparr>"
    and post: "post_messages w (sends k) = Reply r" "\<not> reply_ok r" "reply_status r = 400"
      "error_code r = Some RECIPIENT_NOT_ALLOWED_ERROR_CODE"
    and allow: "addRecipientToAllowList w k2 = (Allowed, k')"
    by (auto simp: send_pass_def Let_def
        split: option.splits fetch_result.splits if_splits prod.splits allow_list_result.splits)
  from addRecipientToAllowList_counts [OF allow] k2 n na post
  show ?thesis by (simp add: RECIPIENT_NOT_ALLOWED_ERROR_CODE_def)
qed

lemma send_pass_done:
  assumes "send_pass w k dest message attempted = (Done res, k')"
  shows "enrollments k' \<le> Suc (enrollments k) \<and> sends k' \<le> Suc (sends k)
         \<and> (enrollments k' \<noteq> enrollments k \<longrightarrow>
               \<not> attempted
               \<and> (\<exists>r. post_messages w (sends k) = Reply r \<and> \<not> reply_ok r \<and> reply_status r = 400
                       \<and> error_code r = Some 131030))"
proof -
  let ?trigger = "\<exists>r. post_messages w (sends k) = Reply r \<and> \<not> reply_ok r \<and> reply_status r = 400
                       \<and> error_code r = Some 131030"
  from assms consider
    (plain) "enrollments k' = enrollments k" "sends k' \<le> Suc (sends k)"
  | (enroll) nt k2 a where "\<not> attempted" ?trigger
      "k2 = k\<lparr>lookups := Suc (lookups k), sends := Suc (sends k),
                sent := sent k @ [(nt, message)]\<rparr>"
      "addRecipientToAllowList w k2 = (a, k')"
    by (auto simp: send_pass_def Let_def RECIPIENT_NOT_ALLOWED_ERROR_CODE_def
        split: option.splits fetch_result.splits if_splits prod.splits allow_list_result.splits)
  then show ?thesis
  proof cases
    case plain
    then show ?thesis by simp
  next
    case enroll
    from addRecipientToAllowList_counts [OF enroll(4)] enroll(1-3)
    show ?thesis by simp
  qed
qed

lemma normalizePhone_idem:
  "normalizePhone (Some dest) = Some nt \<Longrightarrow> normalizePhone (Some nt) = Some nt"
  by (auto simp: normalizePhone_def Let_def split: if_splits)
lemma send_pass_sent:
  assumes "send_pass w k dest message attempted = (p, k')" "sends k' = Suc (sends k)"
  shows "\<exists>nt. normalizePhone (Some dest) = Some nt \<and> sent k' = sent k @ [(nt, message)]"
proof -
  from assms(1) consider
    (none) "sends k' = sends k"
  | (direct) nt where "normalizePhone (Some dest) = Some nt" "sent k' = sent k @ [(nt, message)]"
  | (enroll) nt k2 a where "normalizePhone (Some dest) = Some nt"
      "k2 = k\<lparr>lookups := Suc (lookups k), sends := Suc (sends k),
                sent := sent k @ [(nt, message)]\<rparr>"
      "addRecipientToAllowList w k2 = (a, k')"
    by (auto simp: send_pass_def Let_def
        split: option.splits fetch_result.splits if_splits prod.splits allow_list_result.splits)
  then show ?thesis
  proof cases
    case none
    with assms(2) show ?thesis by simp
  next
    case direct
    then show ?thesis by blast
  next
    case enroll
    from addRecipientToAllowList_counts [OF enroll(3)] enroll(1,2)
    show ?thesis by simp
  qed
qed

lemma has_credentials_iff:
  "has_credentials user \<longleftrightarrow>
     \<not> ((case user of None \<Rightarrow> None | Some u \<Rightarrow> map_option js_trim (metaAccessToken u)) = None
        \<or> (case user of None \<Rightarrow> None | Some u \<Rightarrow> map_option js_trim (metaAccessToken u)) = Some ''''
        \<or> (case user of None \<Rightarrow> None | Some u \<Rightarrow> map_option js_trim (metaPhoneNumberId u)) = None
        \<or> (case user of None \<Rightarrow> None | Some u \<Rightarrow> map_option js_trim (metaPhoneNumberId u)) = Some '''')"
  unfolding has_credentials_def by (auto split: option.splits)

lemma send_pass_posts:
  assumes "normalizePhone (Some dest) = Some nt"
    and "has_credentials (find_user w (lookups k))"
    and "validate_message message = None"
  shows "send_pass w k dest message attempted =
     (let k2 = k\<lparr>lookups := Suc (lookups k), sends := Suc (sends k),
                  sent := sent k @ [(nt, message)]\<rparr>
      in case post_messages w (sends k) of
           Reply r \<Rightarrow>
             if \<not> reply_ok r \<and> reply_status r = 400
                \<and> error_code r = Some RECIPIENT_NOT_ALLOWED_ERROR_CODE \<and> \<not> attempted
             then (case addRecipientToAllowList w k2 of
                     (Allowed, k3) \<Rightarrow> (Retry nt, k3)
                   | (NotAllowed st err, k3) \<Rightarrow>
                       (Done (Failure
                          (Some (case st of Some s \<Rightarrow> s | None \<Rightarrow> reply_status r))
                          (Some (case err of
                                   Some e \<Rightarrow> e
                                 | None \<Rightarrow> ''Meta rejected the number because it is not in the WhatsApp test allow list. Please add it manually from the Meta Developer Dashboard.''))),
                        k3))
             else (Done (post_result (Reply r)), k2)
         | other \<Rightarrow> (Done (post_result other), k2))"
proof -
  have c: "\<not> ((case find_user w (lookups k) of None \<Rightarrow> None
               | Some u \<Rightarrow> map_option js_trim (metaAccessToken u)) = None
        \<or> (case find_user w (lookups k) of None \<Rightarrow> None
               | Some u \<Rightarrow> map_option js_trim (metaAccessToken u)) = Some ''''
        \<or> (case find_user w (lookups k) of None \<Rightarrow> None
               | Some u \<Rightarrow> map_option js_trim (metaPhoneNumberId u)) = None
        \<or> (case find_user w (lookups k) of None \<Rightarrow> None
               | Some u \<Rightarrow> map_option js_trim (metaPhoneNumberId u)) = Some '''')"
    using assms(2) unfolding has_credentials_iff .
  show ?thesis
    unfolding send_pass_def assms(1) option.case Let_def if_not_P[OF c] assms(3)
    by (cases "post_messages w (sends k)") (simp_all add: post_result_def)
qed

lemma send_pass_attempted_posts:
  assumes "normalizePhone (Some dest) = Some nt"
    and "has_credentials (find_user w (lookups k))"
    and "validate_message message = None"
  shows "send_pass w k dest message True =
     (Done (post_result (post_messages w (sends k))),
      k\<lparr>lookups := Suc (lookups k), sends := Suc (sends k), sent := sent k @ [(nt, message)]\<rparr>)"
  unfolding send_pass_posts[OF assms] Let_def
  by (cases "post_messages w (sends k)") simp_all

text \<open>
  C4: one call of \<^verbatim>\<open>sendMessage\<close> enrolls the recipient at most once and posts the message at
  most twice. An enrollment is made only when \<^verbatim>\<open>allowListAttempted\<close> is not set and the post
  was answered with status 400 and error code 131030; with \<^verbatim>\<open>allowListAttempted\<close> set there
  is no enrollment and at most one post. A second post is made only as the retry after a
  successful enrollment. When the post is answered with status 400 and code 131030 and
  \<^verbatim>\<open>allowListAttempted\<close> is not set, the recipient is enrolled; if the enrollment succeeds,
  the result of the call is that of the one recursive call with \<^verbatim>\<open>allowListAttempted = true\<close>,
  which sends the same message to the same normalized number, does not enroll and, the
  credentials still present, posts once more and answers from that post; if the enrollment
  fails, nothing more is posted and the call fails with the error of the enrollment.
\<close>

theorem allow_list_at_most_once:
  assumes "sendMessage w k dest message attempted = (result, k')"
  shows "enrollments k' \<le> enrollments k + 1 \<and> sends k' \<le> sends k + 2
     \<and> (attempted \<longrightarrow> enrollments k' = enrollments k \<and> sends k' \<le> sends k + 1)
     \<and> (enrollments k' \<noteq> enrollments k \<longrightarrow>
           \<not> attempted
           \<and> (\<exists>r. post_messages w (sends k) = Reply r \<and> \<not> reply_ok r \<and> reply_status r = 400
                   \<and> error_code r = Some 131030))
     \<and> (sends k' = sends k + 2 \<longrightarrow>
           enrollments k' = enrollments k + 1
           \<and> (\<exists>nt k1. send_pass w k dest message attempted = (Retry nt, k1)
                  \<and> sendMessage w k1 nt message True = (result, k')
                  \<and> sent k' = sent k @ [(nt, message), (nt, message)]))
     \<and> (\<not> attempted \<and> normalizePhone (Some dest) = Some nt
          \<and> has_credentials (find_user w (lookups k)) \<and> validate_message message = None
          \<and> post_messages w (sends k) = Reply r \<and> \<not> reply_ok r \<and> reply_status r = 400
          \<and> error_code r = Some 131030
          \<and> addRecipientToAllowList w
                (k\<lparr>lookups := Suc (lookups k), sends := Suc (sends k),
                   sent := sent k @ [(nt, message)]\<rparr>) = (Allowed, k3)
        \<longrightarrow> sendMessage w k3 nt message True = (result, k')
            \<and> enrollments k' = enrollments k + 1
            \<and> (has_credentials (find_user w (lookups k + 1)) \<longrightarrow>
                  result = post_result (post_messages w (sends k + 1))
                  \<and> sends k' = sends k + 2
                  \<and> sent k' = sent k @ [(nt, message), (nt, message)]))
     \<and> (\<not> attempted \<and> normalizePhone (Some dest) = Some nt
          \<and> has_credentials (find_user w (lookups k)) \<and> validate_message message = None
          \<and> post_messages w (sends k) = Reply r \<and> \<not> reply_ok r \<and> reply_status r = 400
          \<and> error_code r = Some 131030
          \<and> addRecipientToAllowList w
                (k\<lparr>lookups := Suc (lookups k), sends := Suc (sends k),
                   sent := sent k @ [(nt, message)]\<rparr>) = (NotAllowed st err, k3)
        \<longrightarrow> k' = k3 \<and> sends k' = sends k + 1 \<and> enrollments k' = enrollments k + 1
            \<and> result = Failure (Some (case st of Some s \<Rightarrow> s | None \<Rightarrow> reply_status r))
                 (Some (case err of
                          Some e \<Rightarrow> e
                        | None \<Rightarrow> ''Meta rejected the number because it is not in the WhatsApp test allow list. Please add it manually from the Meta Developer Dashboard.'')))"
proof -
  have bounds: "enrollments k' \<le> enrollments k + 1 \<and> sends k' \<le> sends k + 2
     \<and> (attempted \<longrightarrow> enrollments k' = enrollments k \<and> sends k' \<le> sends k + 1)
     \<and> (enrollments k' \<noteq> enrollments k \<longrightarrow>
           \<not> attempted
           \<and> (\<exists>r. post_messages w (sends k) = Reply r \<and> \<not> reply_ok r \<and> reply_status r = 400
                   \<and> error_code r = Some 131030))
     \<and> (sends k' = sends k + 2 \<longrightarrow>
           enrollments k' = enrollments k + 1
           \<and> (\<exists>nt k1. send_pass w k dest message attempted = (Retry nt, k1)
                  \<and> sendMessage w k1 nt message True = (result, k')
                  \<and> sent k' = sent k @ [(nt, message), (nt, message)]))"
  proof -
    obtain p k1 where pass: "send_pass w k dest message attempted = (p, k1)"
      by (cases "send_pass w k dest message attempted")
    show ?thesis
    proof (cases p)
      case (Done res)
      with assms pass have eq: "k' = k1" by (simp add: sendMessage.simps [of w k])
      from send_pass_done [OF pass [unfolded Done]] send_pass_attempted [of w k dest message p k1] pass
      show ?thesis unfolding eq by auto
    next
      case (Retry nt)
      note r = send_pass_retry [OF pass [unfolded Retry]]
      from assms pass Retry have again: "sendMessage w k1 nt message True = (result, k')"
        by (simp add: sendMessage.simps [of w k])
      obtain p2 k2 where pass2: "send_pass w k1 nt message True = (p2, k2)"
        by (cases "send_pass w k1 nt message True")
      from send_pass_attempted [OF pass2] obtain r2 where p2: "p2 = Done r2"
        and c2: "enrollments k2 = enrollments k1" "sends k2 \<le> Suc (sends k1)"
        by blast
      from again pass2 p2 have eq: "k' = k2" by (simp add: sendMessage.simps [of w k1])
      have sent2: "sent k2 = sent k @ [(nt, message), (nt, message)]" if "sends k2 = sends k + 2"
      proof -
        from that r have "sends k2 = Suc (sends k1)" by simp
        from send_pass_sent [OF pass2 this] normalizePhone_idem [of dest nt] r
        show ?thesis by simp
      qed
      from r c2 sent2 pass Retry again show ?thesis unfolding eq by auto
    qed
  qed
  let ?k2 = "k\<lparr>lookups := Suc (lookups k), sends := Suc (sends k),
                 sent := sent k @ [(nt, message)]\<rparr>"
  have retry: "sendMessage w k3 nt message True = (result, k')
            \<and> enrollments k' = enrollments k + 1
            \<and> (has_credentials (find_user w (lookups k + 1)) \<longrightarrow>
                  result = post_result (post_messages w (sends k + 1))
                  \<and> sends k' = sends k + 2
                  \<and> sent k' = sent k @ [(nt, message), (nt, message)])"
    if t: "\<not> attempted" "normalizePhone (Some dest) = Some nt"
      "has_credentials (find_user w (lookups k))" "validate_message message = None"
      "post_messages w (sends k) = Reply r" "\<not> reply_ok r" "reply_status r = 400"
      "error_code r = Some 131030"
      and a: "addRecipientToAllowList w ?k2 = (Allowed, k3)"
  proof -
    have pass: "send_pass w k dest message attempted = (Retry nt, k3)"
      unfolding send_pass_posts [OF t(2,3,4)] Let_def t(5) fetch_result.case a
      using t(1,6,7,8) by (simp add: RECIPIENT_NOT_ALLOWED_ERROR_CODE_def)
    from assms have again: "sendMessage w k3 nt message True = (result, k')"
      by (simp add: sendMessage.simps [of w k] pass)
    note c = addRecipientToAllowList_counts [OF a]
    have k3: "lookups k3 = lookups k + 1" "sends k3 = sends k + 1"
      "sent k3 = sent k @ [(nt, message)]" "enrollments k3 = enrollments k + 1"
      using c by simp_all
    obtain p2 k4 where pass2: "send_pass w k3 nt message True = (p2, k4)"
      by (cases "send_pass w k3 nt message True")
    from send_pass_attempted [OF pass2] obtain r2 where p2: "p2 = Done r2"
      and e4: "enrollments k4 = enrollments k3"
      by blast
    from again pass2 p2 have eq: "result = r2" "k' = k4"
      by (simp_all add: sendMessage.simps [of w k3])
    have second: "result = post_result (post_messages w (sends k + 1))
                  \<and> sends k' = sends k + 2
                  \<and> sent k' = sent k @ [(nt, message), (nt, message)]"
      if h: "has_credentials (find_user w (lookups k + 1))"
    proof -
      have h3: "has_credentials (find_user w (lookups k3))" using h unfolding k3 .
      from send_pass_attempted_posts [OF normalizePhone_idem [OF t(2)] h3 t(4)] pass2 p2
      have "r2 = post_result (post_messages w (sends k3))"
        and "k4 = k3\<lparr>lookups := Suc (lookups k3), sends := Suc (sends k3),
                      sent := sent k3 @ [(nt, message)]\<rparr>"
        by simp_all
      then show ?thesis unfolding eq k3 by simp
    qed
    from again e4 second show ?thesis unfolding eq k3 by simp
  qed
  have no_retry: "k' = k3 \<and> sends k' = sends k + 1 \<and> enrollments k' = enrollments k + 1
            \<and> result = Failure (Some (case st of Some s \<Rightarrow> s | None \<Rightarrow> reply_status r))
                 (Some (case err of
                          Some e \<Rightarrow> e
                        | None \<Rightarrow> ''Meta rejected the number because it is not in the WhatsApp test allow list. Please add it manually from the Meta Developer Dashboard.''))"
    if t: "\<not> attempted" "normalizePhone (Some dest) = Some nt"
      "has_credentials (find_user w (lookups k))" "validate_message message = None"
      "post_messages w (sends k) = Reply r" "\<not> reply_ok r" "reply_status r = 400"
      "error_code r = Some 131030"
      and a: "addRecipientToAllowList w ?k2 = (NotAllowed st err, k3)"
  proof -
    have pass: "send_pass w k dest message attempted =
        (Done (Failure (Some (case st of Some s \<Rightarrow> s | None \<Rightarrow> reply_status r))
                 (Some (case err of
                          Some e \<Rightarrow> e
                        | None \<Rightarrow> ''Meta rejected the number because it is not in the WhatsApp test allow list. Please add it manually from the Meta Developer Dashboard.''))), k3)"
      unfolding send_pass_posts [OF t(2,3,4)] Let_def t(5) fetch_result.case a
      using t(1,6,7,8) by (simp add: RECIPIENT_NOT_ALLOWED_ERROR_CODE_def)
    from assms have eq: "k' = k3"
      "result = Failure (Some (case st of Some s \<Rightarrow> s | None \<Rightarrow> reply_status r))
                 (Some (case err of
                          Some e \<Rightarrow> e
                        | None \<Rightarrow> ''Meta rejected the number because it is not in the WhatsApp test allow list. Please add it manually from the Meta Developer Dashboard.''))"
      by (simp_all add: sendMessage.simps [of w k] pass)
    from addRecipientToAllowList_counts [OF a] eq show ?thesis by simp
  qed
  from bounds retry no_retry show ?thesis by blast
qed

theorem allow_list_at_most_once_witness:
  "sendMessage recovery_world initial_calls ''+54 9 11'' (TextMsg ''hi'') False
     = (Success (Some ''wamid.1''),
        \<lparr>lookups = 2, sends = 2, enrollments = 1, allow_list_posts = 1,
         sent = [(''54911'', TextMsg ''hi''), (''54911'', TextMsg ''hi'')]\<rparr>)
   \<and> Success (Some ''wamid.1'') = post_result (post_messages recovery_world 1)
   \<and> sendMessage stubborn_world initial_calls ''+54 9 11'' (TextMsg ''hi'') False
     = (reply_failure not_allowed_reply,
        \<lparr>lookups = 2, sends = 2, enrollments = 1, allow_list_posts = 1,
         sent = [(''54911'', TextMsg ''hi''), (''54911'', TextMsg ''hi'')]\<rparr>)"
proof -
  have pass1: "send_pass recovery_world initial_calls ''+54 9 11'' (TextMsg ''hi'') False
      = (Retry ''54911'', \<lparr>lookups = 1, sends = 1, enrollments = 1, allow_list_posts = 1,
           sent = [(''54911'', TextMsg ''hi'')]\<rparr>)"
    by (simp add: send_pass_def recovery_world_def initial_calls_def normalizePhone_def is_digit_def
          js_trim_def is_space_def validate_message_def not_allowed_reply_def ok_reply_def
          RECIPIENT_NOT_ALLOWED_ERROR_CODE_def addRecipientToAllowList_def Let_def)
  have pass2: "send_pass recovery_world \<lparr>lookups = 1, sends = 1, enrollments = 1, allow_list_posts = 1,
           sent = [(''54911'', TextMsg ''hi'')]\<rparr> ''54911'' (TextMsg ''hi'') True
      = (Done (Success (Some ''wamid.1'')),
         \<lparr>lookups = 2, sends = 2, enrollments = 1, allow_list_posts = 1,
          sent = [(''54911'', TextMsg ''hi''), (''54911'', TextMsg ''hi'')]\<rparr>)"
    by (simp add: send_pass_def recovery_world_def normalizePhone_def is_digit_def
          js_trim_def is_space_def validate_message_def not_allowed_reply_def ok_reply_def Let_def)
  have run: "sendMessage recovery_world initial_calls ''+54 9 11'' (TextMsg ''hi'') False
     = (Success (Some ''wamid.1''),
        \<lparr>lookups = 2, sends = 2, enrollments = 1, allow_list_posts = 1,
         sent = [(''54911'', TextMsg ''hi''), (''54911'', TextMsg ''hi'')]\<rparr>)"
    by (subst sendMessage.simps, simp only: pass1 prod.case send_pass.case,
        subst sendMessage.simps, simp only: pass2 prod.case send_pass.case)
  have spass1: "send_pass stubborn_world initial_calls ''+54 9 11'' (TextMsg ''hi'') False
      = (Retry ''54911'', \<lparr>lookups = 1, sends = 1, enrollments = 1, allow_list_posts = 1,
           sent = [(''54911'', TextMsg ''hi'')]\<rparr>)"
    by (simp add: send_pass_def stubborn_world_def initial_calls_def normalizePhone_def is_digit_def
          js_trim_def is_space_def validate_message_def not_allowed_reply_def ok_reply_def
          RECIPIENT_NOT_ALLOWED_ERROR_CODE_def addRecipientToAllowList_def Let_def)
  have spass2: "send_pass stubborn_world \<lparr>lookups = 1, sends = 1, enrollments = 1, allow_list_posts = 1,
           sent = [(''54911'', TextMsg ''hi'')]\<rparr> ''54911'' (TextMsg ''hi'') True
      = (Done (reply_failure not_allowed_reply),
         \<lparr>lookups = 2, sends = 2, enrollments = 1, allow_list_posts = 1,
          sent = [(''54911'', TextMsg ''hi''), (''54911'', TextMsg ''hi'')]\<rparr>)"
  proof -
    have ok: "\<not> reply_ok not_allowed_reply" by (simp add: not_allowed_reply_def)
    show ?thesis
      by (simp add: send_pass_def stubborn_world_def normalizePhone_def is_digit_def
          js_trim_def is_space_def validate_message_def ok Let_def)
  qed
  have srun: "sendMessage stubborn_world initial_calls ''+54 9 11'' (TextMsg ''hi'') False
     = (reply_failure not_allowed_reply,
        \<lparr>lookups = 2, sends = 2, enrollments = 1, allow_list_posts = 1,
         sent = [(''54911'', TextMsg ''hi''), (''54911'', TextMsg ''hi'')]\<rparr>)"
    by (subst sendMessage.simps, simp only: spass1 prod.case send_pass.case,
        subst sendMessage.simps, simp only: spass2 prod.case send_pass.case)
  have trigger: "\<not> False \<and> normalizePhone (Some ''+54 9 11'') = Some ''54911''
      \<and> has_credentials (find_user recovery_world (lookups initial_calls))
      \<and> validate_message (TextMsg ''hi'') = None
      \<and> post_messages recovery_world (sends initial_calls) = Reply not_allowed_reply
      \<and> \<not> reply_ok not_allowed_reply \<and> reply_status not_allowed_reply = 400
      \<and> error_code not_allowed_reply = Some 131030
      \<and> addRecipientToAllowList recovery_world
            (initial_calls\<lparr>lookups := Suc (lookups initial_calls),
               sends := Suc (sends initial_calls),
               sent := sent initial_calls @ [(''54911'', TextMsg ''hi'')]\<rparr>)
          = (Allowed, \<lparr>lookups = 1, sends = 1, enrollments = 1, allow_list_posts = 1,
                       sent = [(''54911'', TextMsg ''hi'')]\<rparr>)"
    by (simp add: recovery_world_def initial_calls_def normalizePhone_def is_digit_def
          js_trim_def is_space_def validate_message_def not_allowed_reply_def ok_reply_def
          has_credentials_def addRecipientToAllowList_def Let_def)
  have cred: "has_credentials (find_user recovery_world (lookups initial_calls + 1))"
    by (simp add: recovery_world_def has_credentials_def js_trim_def is_space_def)
  note T = allow_list_at_most_once [OF run, of "''54911''" not_allowed_reply
      "\<lparr>lookups = 1, sends = 1, enrollments = 1, allow_list_posts = 1,
        sent = [(''54911'', TextMsg ''hi'')]\<rparr>"]
  note R = T [THEN conjunct2, THEN conjunct2, THEN conjunct2, THEN conjunct2, THEN conjunct2,
      THEN conjunct1, THEN mp, OF trigger]
  note P = R [THEN conjunct2, THEN conjunct2, THEN mp, OF cred, THEN conjunct1]
  have "Success (Some ''wamid.1'') = post_result (post_messages recovery_world 1)"
    using P by (simp add: initial_calls_def)
  with allow_list_at_most_once [OF srun] run srun
  show ?thesis by (simp only: simp_thms)
qed

subsection \<open>The main loop\<close>

lemma chain_id_inj: "chain_id i = chain_id j \<longleftrightarrow> i = j"
proof
  assume "chain_id i = chain_id j"
  then have "length (chain_id i) = length (chain_id j)" by simp
  then show "i = j" by (simp add: chain_id_def)
qed simp

lemma chain_id_nonempty: "chain_id i \<noteq> []"
  by (simp add: chain_id_def)

lemma filter_eq_upt: "filter (\<lambda>j. j = i) [0..<m] = (if i < m then [i] else [])"
  by (induction m) auto

lemma outgoing_chain:
  "outgoing (chain_edges n) (chain_id i) = (if i < n - 1 then [chain_edge i] else [])"
proof -
  have "outgoing (chain_edges n) (chain_id i)
          = map chain_edge (filter (\<lambda>j. j = i) [0..<n - 1])"
    by (simp add: outgoing_def chain_edges_def filter_map comp_def chain_edge_def
          chain_id_inj chain_id_nonempty)
  then show ?thesis by (simp add: filter_eq_upt)
qed

lemma chooseFirstEdge_chain:
  "chooseFirstEdge (chain_edges n) (chain_id i)
     = (if i < n - 1 then Some (chain_edge i) else None)"
  by (simp add: chooseFirstEdge_def outgoing_chain)

lemma nodeById_chain:
  "nodeById (chain_nodes n) (chain_id j) = (if j < n then Some (chain_node j) else None)"
  by (induction n) (auto simp: nodeById_def chain_nodes_def chain_node_def chain_id_inj)

lemma run_switch_chain: "run_switch env edges s (chain_node i) c = Break JUndefined c"
  by (simp add: run_switch_def chain_node_def)

lemma chain_not_visited: "chain_id i \<notin> set (map chain_id [0..<i])"
  by (auto simp: chain_id_inj)

lemma chain_fields:
  "node_id (chain_node i) = chain_id i" "node_type (chain_node i) = Trigger"
  "edge_target (chain_edge i) = chain_id (Suc i)"
  by (simp_all add: chain_node_def chain_edge_def)

lemma chain_step:
  assumes "i \<le> SAFE_MAX_STEPS"
  shows "main_loop env (chain_nodes n) (chain_edges n) (Some (chain_node i)) i
           (map chain_id [0..<i]) sess ctx =
     (if Suc i < n then
        main_loop env (chain_nodes n) (chain_edges n) (Some (chain_node (Suc i))) (Suc i)
          (map chain_id [0..<Suc i])
          (updateSession \<lparr>patch_status = None, patch_currentNodeId = None, patch_context = Some ctx\<rparr>
             (updateSession \<lparr>patch_status = None, patch_currentNodeId = Some (Some (chain_id i)),
                patch_context = Some ctx\<rparr> sess))
          ctx
      else
        \<lparr>ended = Returned,
         final_session = updateSession
           \<lparr>patch_status = Some Completed, patch_currentNodeId = Some None, patch_context = Some ctx\<rparr>
           (updateSession \<lparr>patch_status = None, patch_currentNodeId = Some (Some (chain_id i)),
                patch_context = Some ctx\<rparr> sess),
         executed = map chain_id [0..<Suc i]\<rparr>)"
proof -
  have lt: "i < n - 1 \<longleftrightarrow> Suc i < n" by auto
  show ?thesis
    using assms chain_not_visited [of i]
    by (subst main_loop.simps)
       (simp add: run_switch_chain chooseFirstEdge_chain nodeById_chain Let_def truthy_def
          chain_fields chain_id_nonempty lt del: One_nat_def)
qed

lemma chain_guard:
  assumes "i > SAFE_MAX_STEPS"
  shows "main_loop env nodes edges (Some node) i visited sess ctx =
     \<lparr>ended = Returned,
      final_session = updateSession
        \<lparr>patch_status = Some Errored, patch_currentNodeId = None, patch_context = Some ctx\<rparr> sess,
      executed = visited\<rparr>"
  using assms by (subst main_loop.simps) simp

lemma chain_run_short:
  "i < n \<Longrightarrow> n \<le> Suc SAFE_MAX_STEPS \<Longrightarrow>
   executed (main_loop env (chain_nodes n) (chain_edges n) (Some (chain_node i)) i
               (map chain_id [0..<i]) sess ctx) = map chain_id [0..<n]
   \<and> sess_status (final_session (main_loop env (chain_nodes n) (chain_edges n) (Some (chain_node i)) i
               (map chain_id [0..<i]) sess ctx)) = Completed
   \<and> ended (main_loop env (chain_nodes n) (chain_edges n) (Some (chain_node i)) i
               (map chain_id [0..<i]) sess ctx) = Returned"
proof (induction "n - i" arbitrary: i sess)
  case 0
  then show ?case by simp
next
  case (Suc d)
  from Suc.prems have le: "i \<le> SAFE_MAX_STEPS" by simp
  show ?case
  proof (cases "Suc i < n")
    case True
    from Suc.hyps(2) have "d = n - Suc i" by simp
    from Suc.hyps(1) [OF this True Suc.prems(2)] True
    show ?thesis by (simp only: chain_step [OF le] if_True)
  next
    case False
    with Suc.prems have "n = Suc i" by simp
    then show ?thesis
      by (simp add: chain_step [OF le] updateSession_def)
  qed
qed

lemma chain_run_long:
  "i \<le> Suc SAFE_MAX_STEPS \<Longrightarrow> n > Suc (Suc SAFE_MAX_STEPS) \<Longrightarrow>
   executed (main_loop env (chain_nodes n) (chain_edges n) (Some (chain_node i)) i
               (map chain_id [0..<i]) sess ctx) = map chain_id [0..<Suc SAFE_MAX_STEPS]
   \<and> sess_status (final_session (main_loop env (chain_nodes n) (chain_edges n) (Some (chain_node i)) i
               (map chain_id [0..<i]) sess ctx)) = Errored"
proof (induction "Suc SAFE_MAX_STEPS - i" arbitrary: i sess)
  case 0
  then have "i = Suc SAFE_MAX_STEPS" by simp
  then show ?case by (simp add: chain_guard updateSession_def)
next
  case (Suc d)
  then have le: "i \<le> SAFE_MAX_STEPS" and lt: "Suc i < n" by simp_all
  from Suc.hyps(2) have "d = Suc SAFE_MAX_STEPS - Suc i" by simp
  from Suc.hyps(1) [OF this _ Suc.prems(2)] le lt
  show ?case by (simp only: chain_step [OF le] if_True)
qed
lemma main_loop_cases:
  fixes env nodes edges cur steps visited sess ctx
  defines "r \<equiv> main_loop env nodes edges cur steps visited sess ctx"
  shows "(executed r = visited \<and> ended r = Returned
            \<and> (cur \<noteq> None \<longrightarrow> sess_status (final_session r) = Errored))
         \<or> (\<exists>node. cur = Some node \<and> steps \<le> SAFE_MAX_STEPS \<and> node_id node \<notin> set visited
               \<and> (executed r = visited @ [node_id node]
                    \<or> (\<exists>nxt s c. r = main_loop env nodes edges (Some nxt) (Suc steps)
                                        (visited @ [node_id node]) s c)))"
proof (cases cur)
  case None
  then show ?thesis unfolding r_def by (subst main_loop.simps, subst (2) main_loop.simps) simp
next
  case (Some node)
  have unfold: "r = (if steps > SAFE_MAX_STEPS then
            \<lparr>ended = Returned,
             final_session = updateSession
               \<lparr>patch_status = Some Errored, patch_currentNodeId = None, patch_context = Some ctx\<rparr> sess,
             executed = visited\<rparr>
          else if node_id node \<in> set visited then
            \<lparr>ended = Returned,
             final_session = updateSession
               \<lparr>patch_status = Some Errored, patch_currentNodeId = None, patch_context = Some ctx\<rparr> sess,
             executed = visited\<rparr>
          else
            (let visited' = visited @ [node_id node];
                 sess1 = updateSession
                   \<lparr>patch_status = None, patch_currentNodeId = Some (Some (node_id node)),
                    patch_context = Some ctx\<rparr> sess
             in case run_switch env edges steps node ctx of
                  Throw e c \<Rightarrow>
                    \<lparr>ended = Rethrown e,
                     final_session = updateSession
                       \<lparr>patch_status = Some Errored, patch_currentNodeId = None,
                        patch_context = Some c\<rparr> sess1,
                     executed = visited'\<rparr>
                | Return st nid c \<Rightarrow>
                    \<lparr>ended = Returned,
                     final_session = updateSession
                       \<lparr>patch_status = Some st, patch_currentNodeId = nid, patch_context = Some c\<rparr>
                       sess1,
                     executed = visited'\<rparr>
                | Break next c \<Rightarrow>
                    (let nextNodeId =
                           (if \<not> truthy next \<and> node_type node \<noteq> Condition
                            then (case chooseFirstEdge edges (node_id node) of
                                    None \<Rightarrow> JUndefined | Some e \<Rightarrow> JStr (edge_target e))
                            else next)
                     in if \<not> truthy nextNodeId then
                          \<lparr>ended = Returned,
                           final_session = updateSession
                             \<lparr>patch_status = Some Completed, patch_currentNodeId = Some None,
                              patch_context = Some c\<rparr> sess1,
                           executed = visited'\<rparr>
                        else
                          (case (case nextNodeId of JStr i \<Rightarrow> nodeById nodes i | _ \<Rightarrow> None) of
                             None \<Rightarrow>
                               \<lparr>ended = Returned,
                                final_session = updateSession
                                  \<lparr>patch_status = Some Errored, patch_currentNodeId = None,
                                   patch_context = Some c\<rparr> sess1,
                                executed = visited'\<rparr>
                           | Some nxt \<Rightarrow>
                               main_loop env nodes edges (Some nxt) (Suc steps) visited'
                                 (updateSession
                                    \<lparr>patch_status = None, patch_currentNodeId = None,
                                     patch_context = Some c\<rparr> sess1)
                                 c))))"
    unfolding r_def Some by (subst main_loop.simps) simp
  show ?thesis
  proof (cases "steps > SAFE_MAX_STEPS \<or> node_id node \<in> set visited")
    case True
    then show ?thesis using Some by (auto simp: unfold updateSession_def)
  next
    case False
    then have "\<exists>node. cur = Some node \<and> steps \<le> SAFE_MAX_STEPS \<and> node_id node \<notin> set visited
               \<and> (executed r = visited @ [node_id node]
                    \<or> (\<exists>nxt s c. r = main_loop env nodes edges (Some nxt) (Suc steps)
                                        (visited @ [node_id node]) s c))"
      using Some
      by (auto simp: unfold Let_def split: switch_result.splits option.splits)
    then show ?thesis by blast
  qed
qed

lemma main_loop_executed:
  "distinct visited \<Longrightarrow>
   distinct (executed (main_loop env nodes edges cur steps visited sess ctx))
   \<and> length (executed (main_loop env nodes edges cur steps visited sess ctx))
       \<le> length visited + (Suc SAFE_MAX_STEPS - steps)"
proof (induction "Suc SAFE_MAX_STEPS - steps" arbitrary: cur steps visited sess ctx)
  case 0
  then have "steps > SAFE_MAX_STEPS" by simp
  with main_loop_cases [of env nodes edges cur steps visited sess ctx] 0(2)
  show ?case by auto
next
  case (Suc d)
  let ?r = "main_loop env nodes edges cur steps visited sess ctx"
  from main_loop_cases [of env nodes edges cur steps visited sess ctx]
  show ?case
  proof (elim disjE exE conjE)
    assume "executed ?r = visited"
    with Suc.prems show ?thesis by simp
  next
    fix node
    assume "node_id node \<notin> set visited" "executed ?r = visited @ [node_id node]"
    with Suc.prems Suc.hyps(2) show ?thesis by simp
  next
    fix node nxt s c
    assume new: "node_id node \<notin> set visited"
      and rec: "?r = main_loop env nodes edges (Some nxt) (Suc steps) (visited @ [node_id node]) s c"
    from Suc.hyps(2) have d: "d = Suc SAFE_MAX_STEPS - Suc steps" by simp
    from new Suc.prems have dist: "distinct (visited @ [node_id node])" by simp
    from Suc.hyps(2) have le: "steps \<le> SAFE_MAX_STEPS" by simp
    from Suc.hyps(1) [OF d dist, of "Some nxt" s c]
    have a: "distinct (executed (main_loop env nodes edges (Some nxt) (Suc steps)
                 (visited @ [node_id node]) s c))"
      and b: "length (executed (main_loop env nodes edges (Some nxt) (Suc steps)
                 (visited @ [node_id node]) s c))
                \<le> length (visited @ [node_id node]) + (Suc SAFE_MAX_STEPS - Suc steps)"
      by simp_all
    from b le have "length (executed (main_loop env nodes edges (Some nxt) (Suc steps)
                 (visited @ [node_id node]) s c))
                \<le> length visited + (Suc SAFE_MAX_STEPS - steps)"
      by (simp add: Suc_diff_le)
    with a show ?thesis unfolding rec by simp
  qed
qed
lemma main_loop_from_start:
  "distinct (executed (main_loop env nodes edges cur 0 [] sess ctx))
   \<and> length (executed (main_loop env nodes edges cur 0 [] sess ctx)) \<le> 501"
  using main_loop_executed [of "[]" env nodes edges cur 0 sess ctx]
  by (simp add: SAFE_MAX_STEPS_def)

text \<open>
  C1: the loop executes no node twice and a violated guard writes the status Errored
  and returns (lemmas \<open>main_loop_executed\<close> and \<open>main_loop_cases\<close>), but the step guard
  \<^verbatim>\<open>steps++ > SAFE_MAX_STEPS\<close> lets the steps 0 to 500 pass: on a chain of 501 nodes the loop
  executes all 501 nodes and completes the session, and on a chain of 600 nodes it
  executes 501 nodes before the session is marked Errored. The cap of 500 node steps does
  not hold.
\<close>

theorem step_guard_allows_501_nodes:
  "SAFE_MAX_STEPS = 500
   \<and> length (executed (main_loop quiet_env (chain_nodes 501) (chain_edges 501)
                (Some (chain_node 0)) 0 [] new_session fmempty)) = 501
   \<and> distinct (executed (main_loop quiet_env (chain_nodes 501) (chain_edges 501)
                (Some (chain_node 0)) 0 [] new_session fmempty))
   \<and> sess_status (final_session (main_loop quiet_env (chain_nodes 501) (chain_edges 501)
                (Some (chain_node 0)) 0 [] new_session fmempty)) = Completed
   \<and> length (executed (main_loop quiet_env (chain_nodes 600) (chain_edges 600)
                (Some (chain_node 0)) 0 [] new_session fmempty)) = 501
   \<and> sess_status (final_session (main_loop quiet_env (chain_nodes 600) (chain_edges 600)
                (Some (chain_node 0)) 0 [] new_session fmempty)) = Errored"
proof -
  have short: "(0::nat) < 501" "(501::nat) \<le> Suc SAFE_MAX_STEPS"
    by (simp_all add: SAFE_MAX_STEPS_def)
  have long: "(0::nat) \<le> Suc SAFE_MAX_STEPS" "(600::nat) > Suc (Suc SAFE_MAX_STEPS)"
    by (simp_all add: SAFE_MAX_STEPS_def)
  have e: "map chain_id [0..<0] = []" by simp
  note s = chain_run_short [OF short, of quiet_env new_session fmempty, unfolded e]
  note l = chain_run_long [OF long, of quiet_env new_session fmempty, unfolded e]
  have d: "distinct (map chain_id [0..<501])"
    by (simp add: distinct_map inj_on_def chain_id_inj)
  from s l d show ?thesis by (simp add: SAFE_MAX_STEPS_def)
qed

subsection \<open>Flow-definition sanitization\<close>

lemma deepClone_cloneable:
  "has_structuredClone h \<Longrightarrow> \<not> uncloneable v \<Longrightarrow> deepClone h v = v"
  by (cases v) simp_all

lemma uncloneable_object:
  "uncloneable (JObject a m) \<longleftrightarrow>
     (\<exists>xs. a = Some xs \<and> (\<exists>x\<in>set xs. uncloneable x)) \<or> (\<exists>x\<in>fmran' m. uncloneable x)"
  by (cases a) (auto simp: uncloneable.simps(7) fmap.set_map)

lemma uncloneable_value:
  assumes "\<not> uncloneable (JObject a m)" and "fmlookup m k = Some x"
  shows "\<not> uncloneable x"
proof
  assume "uncloneable x"
  moreover have "x \<in> fmran' m" using assms(2) by (rule fmran'I)
  ultimately have "True \<in> uncloneable ` fmran' m" by force
  then show False using assms(1) by (simp add: uncloneable.simps(7) fmap.set_map)
qed

lemma deepClone_idem: "deepClone h (deepClone h v) = deepClone h v"
proof (induction v)
  case (JObject a m)
  show ?case
  proof (cases "has_structuredClone h \<and> \<not> uncloneable (JObject a m)")
    case True
    then show ?thesis by simp
  next
    case False
    define A where "A = map_option (map (deepClone h)) a"
    define M where "M = (if a = None then fmmap (deepClone h) m else fmempty)"
    have step: "deepClone h (JObject a m) = JObject A M"
      using False unfolding A_def M_def by auto
    have A: "map_option (map (deepClone h)) A = A"
      unfolding A_def using JObject.IH(1)
      by (cases a) (simp_all add: map_idI)
    have "fmmap (deepClone h) (fmmap (deepClone h) m) = fmmap (deepClone h) m"
      unfolding fmap.map_comp by (rule fmap.map_cong) (simp_all add: JObject.IH(2))
    then have M: "(if A = None then fmmap (deepClone h) M else fmempty) = M"
      unfolding A_def M_def by simp
    have "deepClone h (JObject A M) = JObject A M"
      by (simp only: deepClone.simps A M if_cancel)
    then show ?thesis unfolding step .
  qed
qed simp_all

lemma stable_values:
  assumes "deepClone h v = JObject None m" and "fmlookup m k = Some x"
  shows "deepClone h x = x"
proof (cases v)
  case (JObject a m0)
  show ?thesis
  proof (cases "has_structuredClone h \<and> \<not> uncloneable (JObject a m0)")
    case True
    then have "JObject a m0 = JObject None m" using assms(1) JObject by simp
    then have "\<not> uncloneable (JObject None m)" using True by simp
    then have "\<not> uncloneable x" using assms(2) by (rule uncloneable_value)
    then show ?thesis using True by (simp add: deepClone_cloneable)
  next
    case False
    then have "a = None" and m: "m = fmmap (deepClone h) m0"
      using assms(1) JObject by (simp_all split: if_splits)
    then obtain x0 where "x = deepClone h x0" using assms(2) by auto
    then show ?thesis by (simp add: deepClone_idem)
  qed
qed (use assms(1) in simp_all)

lemma stable_object:
  assumes "\<And>k x. fmlookup m k = Some x \<Longrightarrow> deepClone h x = x"
  shows "deepClone h (JObject None m) = JObject None m"
proof -
  have "fmmap (deepClone h) m = m"
  proof (rule fmap_ext)
    fix k show "fmlookup (fmmap (deepClone h) m) k = fmlookup m k"
      using assms[of k] by (cases "fmlookup m k") simp_all
  qed
  then show ?thesis by simp
qed

lemma deepClone_object: "\<exists>m'. deepClone h (JObject None m) = JObject None m'"
  by simp

lemma own_deepClone:
  "own (deepClone h (JObject None m)) k = deepClone h (own (JObject None m) k)"
proof (cases "has_structuredClone h \<and> \<not> uncloneable (JObject None m)")
  case True
  show ?thesis
  proof (cases "fmlookup m k")
    case None
    then show ?thesis using True by (simp add: own_def)
  next
    case (Some x)
    then have "\<not> uncloneable x" using True uncloneable_value by blast
    then have "deepClone h x = x" using True by (simp add: deepClone_cloneable)
    then show ?thesis using True Some by (simp add: own_def)
  qed
next
  case False
  then show ?thesis by (cases "fmlookup m k") (auto simp: own_def)
qed

lemma merge_parsed_Valid:
  "merge_parsed rs = Valid vs \<longleftrightarrow> list_all2 (\<lambda>r v. r = Valid v) rs vs"
proof (induction rs arbitrary: vs)
  case Nil
  show ?case by auto
next
  case (Cons r rs)
  show ?case
  proof (cases r)
    case (Valid v)
    then show ?thesis using Cons.IH
      by (cases "merge_parsed rs") (auto simp: list_all2_Cons1)
  next
    case Invalid
    then show ?thesis by (cases "merge_parsed rs") (auto simp: list_all2_Cons1)
  next
    case (Thrown e)
    then show ?thesis by (auto simp: list_all2_Cons1)
  qed
qed

lemma merge_parsed_map_Valid:
  "merge_parsed (map f xs) = Valid ys \<longleftrightarrow> list_all2 (\<lambda>x y. f x = Valid y) xs ys"
  unfolding merge_parsed_Valid list_all2_map1 ..

lemma traverse_Inr:
  "traverse f xs = Inr ys \<longleftrightarrow> list_all2 (\<lambda>x y. f x = Inr y) xs ys"
proof (induction xs arbitrary: ys)
  case Nil
  show ?case by auto
next
  case (Cons x xs)
  show ?case
  proof (cases "f x")
    case (Inl e)
    then show ?thesis by (auto simp: list_all2_Cons1)
  next
    case (Inr y)
    then show ?thesis using Cons.IH
      by (cases "traverse f xs") (auto simp: list_all2_Cons1)
  qed
qed
lemma ensureCoordinate_parsed:
  "ensureCoordinate h JUndefined = Inr (Fin 0)"
  "ensureCoordinate h (JNum (Fin r)) = Inr (Fin r)"
  by (simp_all add: ensureCoordinate_def js_Number_def isFinite_def)

lemma coordinate_or_zero_finite: "\<exists>r. coordinate_or_zero h c = Fin r"
  unfolding coordinate_or_zero_def isFinite_def
  by (cases "js_Number h c") (auto split: jsnum.splits)

lemma coordinate_or_zero_simps:
  "coordinate_or_zero h JUndefined = Fin 0"
  "coordinate_or_zero h (JNum (Fin r)) = Fin r"
  by (simp_all add: coordinate_or_zero_def js_Number_def isFinite_def)

lemma optional_coordinate_Valid:
  assumes "optional_coordinate h c = Valid p"
  shows "(c = JUndefined \<and> p = JUndefined) \<or> p = JNum (coordinate_or_zero h c)"
  using assms unfolding optional_coordinate_def coordinateSchema_def coordinate_or_zero_def
  by (cases "js_Number h c") (auto split: if_splits)

lemma optional_coordinate_ensure:
  assumes "optional_coordinate h c = Valid p"
  shows "ensureCoordinate h p = Inr (coordinate_or_zero h c)"
    and "p = JUndefined \<or> (\<exists>r. p = JNum (Fin r))"
proof -
  obtain r where r: "coordinate_or_zero h c = Fin r"
    using coordinate_or_zero_finite by blast
  from optional_coordinate_Valid[OF assms]
  show "ensureCoordinate h p = Inr (coordinate_or_zero h c)"
    using r by (auto simp: ensureCoordinate_parsed coordinate_or_zero_simps)
  from optional_coordinate_Valid[OF assms]
  show "p = JUndefined \<or> (\<exists>r. p = JNum (Fin r))"
    by (auto simp: r)
qed

lemma optional_coordinate_finite:
  "optional_coordinate h (JNum (Fin r)) = Valid (JNum (Fin r))"
  by (simp add: optional_coordinate_def coordinateSchema_def js_Number_def isFinite_def)

lemma fmupd_same: "fmlookup m k = Some v \<Longrightarrow> fmupd k v m = m"
  by (rule fmap_ext) auto

lemma position_object:
  "JObj [(''x'', a), (''y'', b)] = JObject None (fmupd ''y'' b (fmupd ''x'' a fmempty))"
  unfolding JObj_def by (simp, rule fmap_ext) auto

lemma merge_parsed2:
  "merge_parsed [a, b] = Valid vs \<longleftrightarrow> (\<exists>x y. a = Valid x \<and> b = Valid y \<and> vs = [x, y])"
  unfolding merge_parsed_Valid by (auto simp: list_all2_Cons1)

lemma merge_parsed4:
  "merge_parsed [a, b, c, d] = Valid vs \<longleftrightarrow>
     (\<exists>x y z w. a = Valid x \<and> b = Valid y \<and> c = Valid z \<and> d = Valid w \<and> vs = [x, y, z, w])"
  unfolding merge_parsed_Valid by (auto simp: list_all2_Cons1)

lemma merge_parsed5:
  "merge_parsed [a, b, c, d, e] = Valid vs \<longleftrightarrow>
     (\<exists>x y z w u. a = Valid x \<and> b = Valid y \<and> c = Valid z \<and> d = Valid w \<and> e = Valid u
        \<and> vs = [x, y, z, w, u])"
  unfolding merge_parsed_Valid by (auto simp: list_all2_Cons1)

lemma parsed_case_Valid:
  "(case r of Thrown e \<Rightarrow> Thrown e | Invalid \<Rightarrow> Invalid | Valid vs \<Rightarrow> Valid (f vs)) = Valid p
     \<longleftrightarrow> (\<exists>vs. r = Valid vs \<and> p = f vs)"
  by (cases r) auto

lemma position_schema_Valid:
  assumes "position_schema h v = Valid p"
  shows "(v = JUndefined \<and> p = JUndefined)
         \<or> (\<exists>pm q. v = JObject None pm \<and> p = JObject None q
              \<and> ensureCoordinate h (ctx_get q ''x'') = Inr (coordinate_or_zero h (ctx_get pm ''x''))
              \<and> ensureCoordinate h (ctx_get q ''y'') = Inr (coordinate_or_zero h (ctx_get pm ''y''))
              \<and> (\<forall>k x. fmlookup q k = Some x \<longrightarrow> x = JUndefined \<or> (\<exists>r. x = JNum (Fin r))))"
proof (cases "v = JUndefined")
  case True
  then show ?thesis using assms by (simp add: position_schema_def)
next
  case False
  then obtain pm where v: "v = JObject None pm"
    using assms unfolding position_schema_def
    by (cases v) (auto split: option.splits)
  from assms obtain vs where
    m: "merge_parsed [optional_coordinate h (ctx_get pm ''x''),
                      optional_coordinate h (ctx_get pm ''y'')] = Valid vs"
    and p: "p = JObject None (assign_all (kept_entries pm (zip [''x'', ''y''] vs)) fmempty)"
    unfolding position_schema_def v by (auto simp: parsed_case_Valid)
  from m obtain px py where
    px: "optional_coordinate h (ctx_get pm ''x'') = Valid px"
    and py: "optional_coordinate h (ctx_get pm ''y'') = Valid py"
    and vs: "vs = [px, py]"
    unfolding merge_parsed2 by blast
  define q where "q = assign_all (kept_entries pm (zip [''x'', ''y''] vs)) fmempty"
  note ex = optional_coordinate_ensure[OF px]
  note ey = optional_coordinate_ensure[OF py]
  have qx: "ctx_get q ''x'' = px" and qy: "ctx_get q ''y'' = py"
    unfolding q_def vs kept_entries_def assign_all_def
    by (auto simp: ctx_get_def)
  have vals: "\<forall>k x. fmlookup q k = Some x \<longrightarrow> x = JUndefined \<or> (\<exists>r. x = JNum (Fin r))"
    unfolding q_def vs kept_entries_def assign_all_def
    using ex(2) ey(2) by (auto split: if_splits)
  show ?thesis
    using v p ex(1) ey(1) vals unfolding q_def[symmetric] qx[symmetric] qy[symmetric]
    by blast
qed
lemma string_min1_Valid:
  "string_min1 v = Valid p \<longleftrightarrow> (\<exists>s. v = JStr s \<and> s \<noteq> '''' \<and> p = v)"
  unfolding string_min1_def by (cases v) (auto simp: Suc_le_eq)

lemma node_type_enum_Valid:
  "node_type_enum v = Valid p \<longleftrightarrow> (\<exists>s. v = JStr s \<and> s \<in> set flowNodeTypes \<and> p = v)"
  unfolding node_type_enum_def by (cases v) auto

lemma handle_schema_Valid:
  "handle_schema v = Valid p \<longleftrightarrow>
     (p = v \<and> (v = JUndefined \<or> v = JNull \<or> (\<exists>s. v = JStr s)))"
  unfolding handle_schema_def by (cases v) auto

lemma own_object: "own (JObject a m) k = ctx_get m k"
  by (simp add: own_def ctx_get_def)

lemma stable_position: "deepClone h (JObj [(''x'', JNum a), (''y'', JNum b)]) = JObj [(''x'', JNum a), (''y'', JNum b)]"
  unfolding JObj_def by (rule stable_object) (auto split: if_splits)

lemma is_nonempty_string_iff:
  "is_nonempty_string (ctx_get m k) \<longleftrightarrow> (\<exists>s. fmlookup m k = Some (JStr s) \<and> s \<noteq> '''')"
  unfolding is_nonempty_string_def ctx_get_def
  by (auto split: option.splits jsval.splits)

lemma is_node_type_iff:
  "is_node_type (ctx_get m k) \<longleftrightarrow> (\<exists>s. fmlookup m k = Some (JStr s) \<and> s \<in> set flowNodeTypes)"
  unfolding is_node_type_def ctx_get_def
  by (auto split: option.splits jsval.splits)

lemma is_plain_iff:
  "isPlainObject (ctx_get m k) \<longleftrightarrow> (\<exists>d. fmlookup m k = Some (JObject None d))"
  unfolding isPlainObject_def ctx_get_def
  by (auto split: option.splits jsval.splits)

lemma is_finite_number_iff: "is_finite_number v \<longleftrightarrow> (\<exists>r. v = JNum (Fin r))"
  unfolding is_finite_number_def isFinite_def
  by (auto split: jsval.splits jsnum.splits)

lemma own_position:
  "own (JObj [(''x'', a), (''y'', b)]) ''x'' = a"
  "own (JObj [(''x'', a), (''y'', b)]) ''y'' = b"
  by (simp_all add: own_def JObj_def)

lemma is_position_iff:
  "is_finite_number (own (ctx_get m k) ''x'') \<and> is_finite_number (own (ctx_get m k) ''y'')
   \<and> ctx_get m k = JObj [(''x'', own (ctx_get m k) ''x''), (''y'', own (ctx_get m k) ''y'')]
   \<longleftrightarrow> (\<exists>x y. fmlookup m k = Some (JObj [(''x'', JNum (Fin x)), (''y'', JNum (Fin y))]))"
  (is "?L \<longleftrightarrow> ?R")
proof
  assume l: ?L
  then obtain x y where x: "own (ctx_get m k) ''x'' = JNum (Fin x)"
    and y: "own (ctx_get m k) ''y'' = JNum (Fin y)"
    unfolding is_finite_number_iff by blast
  from l have "ctx_get m k = JObj [(''x'', JNum (Fin x)), (''y'', JNum (Fin y))]"
    unfolding x y by simp
  then have "fmlookup m k = Some (JObj [(''x'', JNum (Fin x)), (''y'', JNum (Fin y))])"
    unfolding ctx_get_def JObj_def by (cases "fmlookup m k") simp_all
  then show ?R by blast
next
  assume ?R
  then obtain x y where "fmlookup m k = Some (JObj [(''x'', JNum (Fin x)), (''y'', JNum (Fin y))])"
    by blast
  then have "ctx_get m k = JObj [(''x'', JNum (Fin x)), (''y'', JNum (Fin y))]"
    by (simp add: ctx_get_def)
  then show ?L by (simp add: own_position is_finite_number_iff)
qed

lemma sanitized_node_iff:
  "sanitized_node v \<longleftrightarrow>
     (\<exists>m. v = JObject None m
        \<and> (\<exists>i. fmlookup m ''id'' = Some (JStr i) \<and> i \<noteq> '''')
        \<and> (\<exists>t. fmlookup m ''type'' = Some (JStr t) \<and> t \<in> set flowNodeTypes)
        \<and> (\<exists>d. fmlookup m ''data'' = Some (JObject None d))
        \<and> (\<exists>x y. fmlookup m ''position'' = Some (JObj [(''x'', JNum (Fin x)), (''y'', JNum (Fin y))])))"
proof (cases "\<exists>m. v = JObject None m")
  case True
  then obtain m where v: "v = JObject None m" by blast
  have "sanitized_node v \<longleftrightarrow>
      is_nonempty_string (ctx_get m ''id'') \<and> is_node_type (ctx_get m ''type'')
      \<and> isPlainObject (ctx_get m ''data'')
      \<and> (is_finite_number (own (ctx_get m ''position'') ''x'')
         \<and> is_finite_number (own (ctx_get m ''position'') ''y'')
         \<and> ctx_get m ''position''
            = JObj [(''x'', own (ctx_get m ''position'') ''x''),
                    (''y'', own (ctx_get m ''position'') ''y'')])"
    unfolding sanitized_node_def v by simp
  then show ?thesis
    unfolding is_position_iff is_nonempty_string_iff is_node_type_iff is_plain_iff v by simp
next
  case False
  then show ?thesis unfolding sanitized_node_def
    by (cases v) (auto split: option.splits)
qed

lemma sanitized_edge_iff:
  "sanitized_edge v \<longleftrightarrow>
     (\<exists>m. v = JObject None m
        \<and> (\<exists>i. fmlookup m ''id'' = Some (JStr i) \<and> i \<noteq> '''')
        \<and> (\<exists>s. fmlookup m ''source'' = Some (JStr s) \<and> s \<noteq> '''')
        \<and> (\<exists>t. fmlookup m ''target'' = Some (JStr t) \<and> t \<noteq> '''')
        \<and> is_handle (fmlookup m ''sourceHandle'') \<and> is_handle (fmlookup m ''targetHandle''))"
proof (cases "\<exists>m. v = JObject None m")
  case True
  then obtain m where v: "v = JObject None m" by blast
  show ?thesis
    unfolding sanitized_edge_def v is_nonempty_string_iff by simp
next
  case False
  then show ?thesis unfolding sanitized_edge_def
    by (cases v) (auto split: option.splits)
qed

lemma node_schema_Valid:
  assumes "FlowNodeSchemaInternal h v = Valid p"
  shows "\<exists>m pm i t. v = JObject None m \<and> p = JObject None pm
           \<and> ctx_get pm ''id'' = JStr i \<and> i \<noteq> ''''
           \<and> ctx_get pm ''type'' = JStr t \<and> t \<in> set flowNodeTypes
           \<and> position_schema h (ctx_get m ''position'') = Valid (ctx_get pm ''position'')
           \<and> ctx_get pm ''data'' = ctx_get m ''data''"
proof -
  obtain m where v: "v = JObject None m"
    using assms unfolding FlowNodeSchemaInternal_def
    by (cases v) (auto split: option.splits)
  from assms obtain vs where
    mp: "merge_parsed [string_min1 (ctx_get m ''id''), node_type_enum (ctx_get m ''type''),
                       position_schema h (ctx_get m ''position''), Valid (ctx_get m ''data'')]
         = Valid vs"
    and p: "p = JObject None
              (assign_all (kept_entries m (zip [''id'', ''type'', ''position'', ''data''] vs)) m)"
    unfolding FlowNodeSchemaInternal_def v by (auto simp: parsed_case_Valid)
  from mp obtain i t pp where
    i: "ctx_get m ''id'' = JStr i" "i \<noteq> ''''"
    and t: "ctx_get m ''type'' = JStr t" "t \<in> set flowNodeTypes"
    and pp: "position_schema h (ctx_get m ''position'') = Valid pp"
    and vs: "vs = [JStr i, JStr t, pp, ctx_get m ''data'']"
    unfolding merge_parsed4 string_min1_Valid node_type_enum_Valid by auto
  define pm where
    "pm = assign_all (kept_entries m (zip [''id'', ''type'', ''position'', ''data''] vs)) m"
  have 1: "ctx_get pm ''id'' = JStr i"
    unfolding pm_def vs kept_entries_def assign_all_def by (simp add: ctx_get_def)
  have 2: "ctx_get pm ''type'' = JStr t"
    unfolding pm_def vs kept_entries_def assign_all_def by (simp add: ctx_get_def)
  have "pp = JUndefined \<Longrightarrow> ctx_get m ''position'' = JUndefined"
    using position_schema_Valid[OF pp] by auto
  then have 3: "ctx_get pm ''position'' = pp"
    unfolding pm_def vs kept_entries_def assign_all_def
    by (auto simp: ctx_get_def split: option.splits)
  have 4: "ctx_get pm ''data'' = ctx_get m ''data''"
    unfolding pm_def vs kept_entries_def assign_all_def
    by (auto simp: ctx_get_def split: option.splits)
  show ?thesis
    using v p i(2) t(2) pp 1 2 4 unfolding pm_def[symmetric] 3[symmetric] by blast
qed

lemma parsed_position_coordinates:
  assumes "position_schema h v = Valid pp"
  defines "position \<equiv> (if isPlainObject (deepClone h pp) then deepClone h pp else JObject None fmempty)"
  shows "ensureCoordinate h (own position ''x'') = Inr (coordinate_or_zero h (own v ''x''))"
    and "ensureCoordinate h (own position ''y'') = Inr (coordinate_or_zero h (own v ''y''))"
proof -
  from position_schema_Valid[OF assms(1)]
  have "ensureCoordinate h (own position ''x'') = Inr (coordinate_or_zero h (own v ''x''))
      \<and> ensureCoordinate h (own position ''y'') = Inr (coordinate_or_zero h (own v ''y''))"
  proof (elim disjE exE conjE)
    assume "v = JUndefined" "pp = JUndefined"
    then show ?thesis
      unfolding position_def
      by (simp add: isPlainObject_def own_def ensureCoordinate_parsed coordinate_or_zero_simps)
  next
    fix pm q
    assume v: "v = JObject None pm" and pp: "pp = JObject None q"
      and x: "ensureCoordinate h (ctx_get q ''x'') = Inr (coordinate_or_zero h (ctx_get pm ''x''))"
      and y: "ensureCoordinate h (ctx_get q ''y'') = Inr (coordinate_or_zero h (ctx_get pm ''y''))"
      and vals: "\<forall>k x. fmlookup q k = Some x \<longrightarrow> x = JUndefined \<or> (\<exists>r. x = JNum (Fin r))"
    have "deepClone h pp = pp"
      unfolding pp
    proof (rule stable_object)
      fix k x
      assume "fmlookup q k = Some x"
      then have "x = JUndefined \<or> (\<exists>r. x = JNum (Fin r))" using vals by blast
      then show "deepClone h x = x" by auto
    qed
    then have "position = JObject None q"
      unfolding position_def pp by (simp add: isPlainObject_def)
    then show ?thesis using x y unfolding v by (simp add: own_object)
  qed
  then show "ensureCoordinate h (own position ''x'') = Inr (coordinate_or_zero h (own v ''x''))"
    and "ensureCoordinate h (own position ''y'') = Inr (coordinate_or_zero h (own v ''y''))"
    by simp_all
qed

lemma deepClone_plain:
  "isPlainObject v \<Longrightarrow> isPlainObject (deepClone h v)"
  unfolding isPlainObject_def by (cases v) (auto split: option.splits)

lemma sanitize_node_result:
  assumes "FlowNodeSchemaInternal h v = Valid p"
  shows "\<exists>n. sanitize_node h p = Inr n \<and> sanitized_node n \<and> deepClone h n = n
           \<and> own (own n ''position'') ''x''
               = JNum (coordinate_or_zero h (own (own v ''position'') ''x''))
           \<and> own (own n ''position'') ''y''
               = JNum (coordinate_or_zero h (own (own v ''position'') ''y''))"
proof -
  from node_schema_Valid[OF assms] obtain m pm i t where
    v: "v = JObject None m" and p: "p = JObject None pm"
    and i: "ctx_get pm ''id'' = JStr i" "i \<noteq> ''''"
    and t: "ctx_get pm ''type'' = JStr t" "t \<in> set flowNodeTypes"
    and pp: "position_schema h (ctx_get m ''position'') = Valid (ctx_get pm ''position'')"
    by blast
  obtain cm where clone: "deepClone h p = JObject None cm"
    unfolding p using deepClone_object by blast
  have own_clone: "own (JObject None cm) k = deepClone h (ctx_get pm k)" for k
    unfolding clone[symmetric] p own_deepClone own_object ..
  define X where "X = coordinate_or_zero h (own (ctx_get m ''position'') ''x'')"
  define Y where "Y = coordinate_or_zero h (own (ctx_get m ''position'') ''y'')"
  obtain rx ry where rx: "X = Fin rx" and ry: "Y = Fin ry"
    unfolding X_def Y_def using coordinate_or_zero_finite by blast
  define D where
    "D = (if isPlainObject (own (JObject None cm) ''data'')
          then deepClone h (own (JObject None cm) ''data'') else JObject None fmempty)"
  define n where
    "n = spread_with (JObject None cm)
           [(''id'', JStr i), (''type'', JStr t), (''data'', D),
            (''position'', JObj [(''x'', JNum X), (''y'', JNum Y)])]"
  note c = parsed_position_coordinates[OF pp]
  have own_id: "own (JObject None cm) ''id'' = JStr i"
    and own_type: "own (JObject None cm) ''type'' = JStr t"
    and own_position: "own (JObject None cm) ''position'' = deepClone h (ctx_get pm ''position'')"
    unfolding own_clone i t by simp_all
  have run: "sanitize_node h p = Inr n"
    unfolding sanitize_node_def clone Let_def own_id own_type own_position c n_def D_def X_def Y_def
    by (simp add: js_String_def)
  obtain d where D: "D = JObject None d"
  proof (cases "isPlainObject (own (JObject None cm) ''data'')")
    case True
    then have "isPlainObject D" unfolding D_def by (simp add: deepClone_plain)
    then show ?thesis using that unfolding isPlainObject_def
      by (cases D) (auto split: option.splits)
  next
    case False
    then show ?thesis using that unfolding D_def by simp
  qed
  have DD: "deepClone h D = D"
    unfolding D_def by (simp add: deepClone_idem)
  have n_eq: "n = JObject None
       (fmupd ''position'' (JObj [(''x'', JNum X), (''y'', JNum Y)])
         (fmupd ''data'' D (fmupd ''type'' (JStr t) (fmupd ''id'' (JStr i) cm))))"
    unfolding n_def spread_with_def assign_all_def by simp
  have shape: "sanitized_node n"
    unfolding n_eq sanitized_node_iff using i(2) t(2) D rx ry by auto
  have stable: "deepClone h n = n"
    unfolding n_eq
  proof (rule stable_object)
    fix k x
    assume a: "fmlookup (fmupd ''position'' (JObj [(''x'', JNum X), (''y'', JNum Y)])
         (fmupd ''data'' D (fmupd ''type'' (JStr t) (fmupd ''id'' (JStr i) cm)))) k = Some x"
    show "deepClone h x = x"
    proof (cases "k = ''position''")
      case True
      then have "x = JObj [(''x'', JNum X), (''y'', JNum Y)]" using a by simp
      then show ?thesis by (simp only: stable_position)
    next
      case k1: False
      show ?thesis
      proof (cases "k = ''data''")
        case True
        then have "x = D" using a by simp
        then show ?thesis by (simp only: DD)
      next
        case k2: False
        show ?thesis
        proof (cases "k = ''type''")
          case True
          then have "x = JStr t" using a by simp
          then show ?thesis by simp
        next
          case k3: False
          show ?thesis
          proof (cases "k = ''id''")
            case True
            then have "x = JStr i" using a by simp
            then show ?thesis by simp
          next
            case False
            then have "fmlookup cm k = Some x" using a k1 k2 k3 by simp
            then show ?thesis by (rule stable_values[OF clone])
          qed
        qed
      qed
    qed
  qed
  have "own (own n ''position'') ''x'' = JNum X" "own (own n ''position'') ''y'' = JNum Y"
    unfolding n_eq by (simp_all add: own_def JObj_def)
  then show ?thesis using run shape stable unfolding X_def Y_def v own_object by blast
qed

lemma position_schema_finite:
  "position_schema h (JObj [(''x'', JNum (Fin a)), (''y'', JNum (Fin b))])
     = Valid (JObj [(''x'', JNum (Fin a)), (''y'', JNum (Fin b))])"
proof -
  have "position_schema h (JObject None (fmupd ''y'' (JNum (Fin b)) (fmupd ''x'' (JNum (Fin a)) fmempty)))
      = Valid (JObject None (fmupd ''y'' (JNum (Fin b)) (fmupd ''x'' (JNum (Fin a)) fmempty)))"
    unfolding position_schema_def
    by (simp add: ctx_get_def optional_coordinate_finite kept_entries_def assign_all_def)
  then show ?thesis unfolding position_object .
qed

lemma sanitized_node_fixed:
  assumes "sanitized_node n" and "deepClone h n = n"
  shows "FlowNodeSchemaInternal h n = Valid n" and "sanitize_node h n = Inr n"
proof -
  from assms(1) obtain m i t d x y where
    n: "n = JObject None m"
    and i: "fmlookup m ''id'' = Some (JStr i)" "i \<noteq> ''''"
    and t: "fmlookup m ''type'' = Some (JStr t)" "t \<in> set flowNodeTypes"
    and d: "fmlookup m ''data'' = Some (JObject None d)"
    and p: "fmlookup m ''position'' = Some (JObj [(''x'', JNum (Fin x)), (''y'', JNum (Fin y))])"
    unfolding sanitized_node_iff by blast
  have mp: "merge_parsed [string_min1 (ctx_get m ''id''), node_type_enum (ctx_get m ''type''),
                       position_schema h (ctx_get m ''position''), Valid (ctx_get m ''data'')]
         = Valid [JStr i, JStr t, JObj [(''x'', JNum (Fin x)), (''y'', JNum (Fin y))], JObject None d]"
    unfolding merge_parsed4 string_min1_Valid node_type_enum_Valid
    using i t d p by (simp add: ctx_get_def position_schema_finite)
  show "FlowNodeSchemaInternal h n = Valid n"
    unfolding FlowNodeSchemaInternal_def n
    by (simp add: mp kept_entries_def assign_all_def i t d p fmupd_same)
  have dd: "deepClone h (JObject None d) = JObject None d"
    using stable_values[OF assms(2)[unfolded n] d] .
  show "sanitize_node h n = Inr n"
    unfolding sanitize_node_def assms(2) Let_def
    unfolding n
    by (simp add: own_def i t d p isPlainObject_def JObj_def js_String_def ensureCoordinate_parsed
          dd spread_with_def assign_all_def fmupd_same del: deepClone.simps(7))
qed
lemma normalizeHandle_parsed:
  "v = JUndefined \<or> v = JNull \<or> (\<exists>s. v = JStr s) \<Longrightarrow> normalizeHandle v = v"
  unfolding normalizeHandle_def by auto

lemma is_handle_iff:
  "is_handle x \<longleftrightarrow> (\<exists>v. x = Some v \<and> (v = JUndefined \<or> v = JNull \<or> (\<exists>s. v = JStr s)))"
  unfolding is_handle_def by (auto split: option.splits jsval.splits)

lemma edge_schema_Valid:
  assumes "FlowEdgeSchemaInternal v = Valid p"
  shows "\<exists>pm i s t. p = JObject None pm
           \<and> ctx_get pm ''id'' = JStr i \<and> i \<noteq> ''''
           \<and> ctx_get pm ''source'' = JStr s \<and> s \<noteq> ''''
           \<and> ctx_get pm ''target'' = JStr t \<and> t \<noteq> ''''
           \<and> normalizeHandle (ctx_get pm ''sourceHandle'') = ctx_get pm ''sourceHandle''
           \<and> normalizeHandle (ctx_get pm ''targetHandle'') = ctx_get pm ''targetHandle''"
proof -
  obtain m where v: "v = JObject None m"
    using assms unfolding FlowEdgeSchemaInternal_def
    by (cases v) (auto split: option.splits)
  from assms obtain vs where
    mp: "merge_parsed [string_min1 (ctx_get m ''id''), string_min1 (ctx_get m ''source''),
                       string_min1 (ctx_get m ''target''),
                       handle_schema (ctx_get m ''sourceHandle''),
                       handle_schema (ctx_get m ''targetHandle'')] = Valid vs"
    and p: "p = JObject None
              (assign_all (kept_entries m
                 (zip [''id'', ''source'', ''target'', ''sourceHandle'', ''targetHandle''] vs)) m)"
    unfolding FlowEdgeSchemaInternal_def v by (auto simp: parsed_case_Valid)
  from mp obtain i s t where
    i: "ctx_get m ''id'' = JStr i" "i \<noteq> ''''"
    and s: "ctx_get m ''source'' = JStr s" "s \<noteq> ''''"
    and t: "ctx_get m ''target'' = JStr t" "t \<noteq> ''''"
    and sh: "normalizeHandle (ctx_get m ''sourceHandle'') = ctx_get m ''sourceHandle''"
    and th: "normalizeHandle (ctx_get m ''targetHandle'') = ctx_get m ''targetHandle''"
    and vs: "vs = [JStr i, JStr s, JStr t, ctx_get m ''sourceHandle'', ctx_get m ''targetHandle'']"
    unfolding merge_parsed5 string_min1_Valid handle_schema_Valid
    by (auto simp: normalizeHandle_parsed)
  define pm where
    "pm = assign_all (kept_entries m
            (zip [''id'', ''source'', ''target'', ''sourceHandle'', ''targetHandle''] vs)) m"
  have 1: "ctx_get pm ''id'' = JStr i"
    unfolding pm_def vs kept_entries_def assign_all_def by (simp add: ctx_get_def)
  have 2: "ctx_get pm ''source'' = JStr s"
    unfolding pm_def vs kept_entries_def assign_all_def by (simp add: ctx_get_def)
  have 3: "ctx_get pm ''target'' = JStr t"
    unfolding pm_def vs kept_entries_def assign_all_def by (simp add: ctx_get_def)
  have 4: "ctx_get pm ''sourceHandle'' = ctx_get m ''sourceHandle''"
    unfolding pm_def vs kept_entries_def assign_all_def
    by (simp add: ctx_get_def split: option.splits)
  have 5: "ctx_get pm ''targetHandle'' = ctx_get m ''targetHandle''"
    unfolding pm_def vs kept_entries_def assign_all_def
    by (simp add: ctx_get_def split: option.splits)
  show ?thesis
    using p i(2) s(2) t(2) sh th 1 2 3 unfolding pm_def[symmetric] 4[symmetric] 5[symmetric]
    by blast
qed

lemma deepClone_handle:
  "normalizeHandle v = v \<Longrightarrow> deepClone h v = v"
  unfolding normalizeHandle_def by (cases v) simp_all

lemma sanitize_edge_result:
  assumes "FlowEdgeSchemaInternal v = Valid p"
  shows "\<exists>e. sanitize_edge h p = Inr e \<and> sanitized_edge e \<and> deepClone h e = e"
proof -
  from edge_schema_Valid[OF assms] obtain pm i s t where
    p: "p = JObject None pm"
    and i: "ctx_get pm ''id'' = JStr i" "i \<noteq> ''''"
    and s: "ctx_get pm ''source'' = JStr s" "s \<noteq> ''''"
    and t: "ctx_get pm ''target'' = JStr t" "t \<noteq> ''''"
    and sh: "normalizeHandle (ctx_get pm ''sourceHandle'') = ctx_get pm ''sourceHandle''"
    and th: "normalizeHandle (ctx_get pm ''targetHandle'') = ctx_get pm ''targetHandle''"
    by blast
  obtain cm where clone: "deepClone h p = JObject None cm"
    unfolding p using deepClone_object by blast
  have own_clone: "own (JObject None cm) k = deepClone h (ctx_get pm k)" for k
    unfolding clone[symmetric] p own_deepClone own_object ..
  define S where "S = ctx_get pm ''sourceHandle''"
  define T where "T = ctx_get pm ''targetHandle''"
  have S: "normalizeHandle S = S" and T: "normalizeHandle T = T"
    unfolding S_def T_def using sh th by simp_all
  have own_id: "own (JObject None cm) ''id'' = JStr i"
    and own_source: "own (JObject None cm) ''source'' = JStr s"
    and own_target: "own (JObject None cm) ''target'' = JStr t"
    and own_sh: "own (JObject None cm) ''sourceHandle'' = S"
    and own_th: "own (JObject None cm) ''targetHandle'' = T"
    unfolding own_clone i s t S_def T_def
    by (simp_all add: deepClone_handle sh th)
  define e where
    "e = JObject None
       (fmupd ''targetHandle'' T (fmupd ''sourceHandle'' S
         (fmupd ''target'' (JStr t) (fmupd ''source'' (JStr s) (fmupd ''id'' (JStr i) cm)))))"
  have run: "sanitize_edge h p = Inr e"
    unfolding sanitize_edge_def clone Let_def traverse.simps own_id own_source own_target
      own_sh own_th S T e_def
    by (simp add: js_String_def spread_with_def assign_all_def)
  have hS: "is_handle (Some S)" and hT: "is_handle (Some T)"
    using S T unfolding is_handle_def normalizeHandle_def
    by (cases S; simp; cases T; simp)+
  have shape: "sanitized_edge e"
    unfolding e_def sanitized_edge_iff using i(2) s(2) t(2) hS hT by simp
  have stable: "deepClone h e = e"
    unfolding e_def
  proof (rule stable_object)
    fix k x
    assume a: "fmlookup (fmupd ''targetHandle'' T (fmupd ''sourceHandle'' S
         (fmupd ''target'' (JStr t) (fmupd ''source'' (JStr s) (fmupd ''id'' (JStr i) cm))))) k
        = Some x"
    show "deepClone h x = x"
    proof (cases "k = ''targetHandle''")
      case True
      then have "x = T" using a by simp
      then show ?thesis using T by (simp only: deepClone_handle)
    next
      case k1: False
      show ?thesis
      proof (cases "k = ''sourceHandle''")
        case True
        then have "x = S" using a by simp
        then show ?thesis using S by (simp only: deepClone_handle)
      next
        case k2: False
        show ?thesis
        proof (cases "k = ''target''")
          case True
          then have "x = JStr t" using a by simp
          then show ?thesis by simp
        next
          case k3: False
          show ?thesis
          proof (cases "k = ''source''")
            case True
            then have "x = JStr s" using a by simp
            then show ?thesis by simp
          next
            case k4: False
            show ?thesis
            proof (cases "k = ''id''")
              case True
              then have "x = JStr i" using a by simp
              then show ?thesis by simp
            next
              case False
              then have "fmlookup cm k = Some x" using a k1 k2 k3 k4 by simp
              then show ?thesis by (rule stable_values[OF clone])
            qed
          qed
        qed
      qed
    qed
  qed
  show ?thesis using run shape stable by blast
qed

lemma sanitized_edge_fixed:
  assumes "sanitized_edge e" and "deepClone h e = e"
  shows "FlowEdgeSchemaInternal e = Valid e" and "sanitize_edge h e = Inr e"
proof -
  from assms(1) obtain m i s t S T where
    e: "e = JObject None m"
    and i: "fmlookup m ''id'' = Some (JStr i)" "i \<noteq> ''''"
    and s: "fmlookup m ''source'' = Some (JStr s)" "s \<noteq> ''''"
    and t: "fmlookup m ''target'' = Some (JStr t)" "t \<noteq> ''''"
    and S: "fmlookup m ''sourceHandle'' = Some S" "S = JUndefined \<or> S = JNull \<or> (\<exists>s. S = JStr s)"
    and T: "fmlookup m ''targetHandle'' = Some T" "T = JUndefined \<or> T = JNull \<or> (\<exists>s. T = JStr s)"
    unfolding sanitized_edge_iff is_handle_iff by blast
  have mp: "merge_parsed [string_min1 (ctx_get m ''id''), string_min1 (ctx_get m ''source''),
                       string_min1 (ctx_get m ''target''),
                       handle_schema (ctx_get m ''sourceHandle''),
                       handle_schema (ctx_get m ''targetHandle'')]
            = Valid [JStr i, JStr s, JStr t, S, T]"
    unfolding merge_parsed5 string_min1_Valid handle_schema_Valid
    using i s t S T by (simp add: ctx_get_def)
  show "FlowEdgeSchemaInternal e = Valid e"
    unfolding FlowEdgeSchemaInternal_def e
    by (simp add: mp kept_entries_def assign_all_def i s t S(1) T(1) fmupd_same)
  have nS: "normalizeHandle S = S" and nT: "normalizeHandle T = T"
    using S(2) T(2) by (simp_all add: normalizeHandle_parsed)
  show "sanitize_edge h e = Inr e"
    unfolding sanitize_edge_def assms(2) Let_def
    unfolding e
    by (simp add: own_def i s t S(1) T(1) nS nT js_String_def spread_with_def assign_all_def
          fmupd_same)
qed
lemma array_default_Valid:
  assumes "array_default item x = Valid r"
  shows "\<exists>ys. r = JArr ys \<and> list_all2 (\<lambda>a b. item a = Valid b) (elements x) ys"
proof (cases "x = JUndefined")
  case True
  then show ?thesis using assms by (auto simp: array_default_def elements_def)
next
  case False
  then obtain xs m where x: "x = JObject (Some xs) m"
    using assms unfolding array_default_def by (cases x) (auto split: option.splits)
  from assms obtain ys where "merge_parsed (map item xs) = Valid ys" and "r = JArr ys"
    unfolding array_default_def x by (auto simp: parsed_case_Valid)
  then show ?thesis unfolding x merge_parsed_map_Valid by (auto simp: elements_def)
qed

lemma array_default_fixed:
  assumes "list_all (\<lambda>x. item x = Valid x) xs"
  shows "array_default item (JArr xs) = Valid (JArr xs)"
proof -
  have "list_all2 (\<lambda>x y. item x = Valid y) xs xs"
    using assms by (simp add: list_all2_same list_all_iff)
  then have "merge_parsed (map item xs) = Valid xs"
    unfolding merge_parsed_map_Valid .
  then show ?thesis by (simp add: array_default_def JArr_def)
qed

lemma traverse_fixed:
  assumes "list_all (\<lambda>x. f x = Inr x) xs"
  shows "traverse f xs = Inr xs"
  unfolding traverse_Inr using assms by (simp add: list_all2_same list_all_iff)

lemma definition_object:
  "JObj [(''nodes'', a), (''edges'', b)] = JObject None (fmupd ''edges'' b (fmupd ''nodes'' a fmempty))"
  unfolding JObj_def by (simp, rule fmap_ext) auto

lemma schema_Valid:
  assumes "FlowDefinitionSchema h v = Valid parsed"
  shows "\<exists>pns pes. own parsed ''nodes'' = JArr pns \<and> own parsed ''edges'' = JArr pes
           \<and> list_all2 (\<lambda>a b. FlowNodeSchemaInternal h a = Valid b) (elements (own v ''nodes'')) pns
           \<and> list_all2 (\<lambda>a b. FlowEdgeSchemaInternal a = Valid b) (elements (own v ''edges'')) pes"
proof -
  define w where "w = (if v = JUndefined then JObj [(''nodes'', JArr []), (''edges'', JArr [])] else v)"
  obtain m where w: "w = JObject None m"
    using assms unfolding FlowDefinitionSchema_def w_def[symmetric]
    by (cases w) (auto split: option.splits)
  from assms obtain vs where
    mp: "merge_parsed [array_default (FlowNodeSchemaInternal h) (ctx_get m ''nodes''),
                       array_default FlowEdgeSchemaInternal (ctx_get m ''edges'')] = Valid vs"
    and parsed: "parsed = JObject None (assign_all (kept_entries m (zip [''nodes'', ''edges''] vs)) fmempty)"
    unfolding FlowDefinitionSchema_def w_def[symmetric] w by (auto simp: parsed_case_Valid)
  from mp obtain rn re where
    rn: "array_default (FlowNodeSchemaInternal h) (ctx_get m ''nodes'') = Valid rn"
    and re: "array_default FlowEdgeSchemaInternal (ctx_get m ''edges'') = Valid re"
    and vs: "vs = [rn, re]"
    unfolding merge_parsed2 by blast
  from array_default_Valid[OF rn] obtain pns where
    pns: "rn = JArr pns"
      "list_all2 (\<lambda>a b. FlowNodeSchemaInternal h a = Valid b) (elements (ctx_get m ''nodes'')) pns"
    by blast
  from array_default_Valid[OF re] obtain pes where
    pes: "re = JArr pes"
      "list_all2 (\<lambda>a b. FlowEdgeSchemaInternal a = Valid b) (elements (ctx_get m ''edges'')) pes"
    by blast
  have el: "elements (ctx_get m k) = elements (own v k)" for k
  proof (cases "v = JUndefined")
    case True
    then have "m = fmupd ''edges'' (JArr []) (fmupd ''nodes'' (JArr []) fmempty)"
      using w unfolding w_def definition_object by simp
    then show ?thesis using True
      by (simp add: ctx_get_def own_def elements_def JArr_def)
  next
    case False
    then have "v = JObject None m" using w unfolding w_def by simp
    then show ?thesis by (simp add: own_object)
  qed
  have 1: "own parsed ''nodes'' = JArr pns" and 2: "own parsed ''edges'' = JArr pes"
    unfolding parsed vs pns(1) pes(1) kept_entries_def assign_all_def
    by (simp_all add: own_def JArr_def)
  show ?thesis using 1 2 pns(2) pes(2) unfolding el by blast
qed

lemma schema_fixed:
  assumes "list_all (\<lambda>n. FlowNodeSchemaInternal h n = Valid n) ns"
    and "list_all (\<lambda>e. FlowEdgeSchemaInternal e = Valid e) es"
  shows "FlowDefinitionSchema h (JObj [(''nodes'', JArr ns), (''edges'', JArr es)])
         = Valid (JObj [(''nodes'', JArr ns), (''edges'', JArr es)])"
  unfolding definition_object FlowDefinitionSchema_def
  by (simp add: ctx_get_def array_default_fixed[OF assms(1)] array_default_fixed[OF assms(2)]
        kept_entries_def assign_all_def)

lemma sanitize_fixed:
  assumes "list_all (\<lambda>n. sanitized_node n \<and> deepClone h n = n) ns"
    and "list_all (\<lambda>e. sanitized_edge e \<and> deepClone h e = e) es"
  shows "sanitizeFlowDefinition h (JObj [(''nodes'', JArr ns), (''edges'', JArr es)])
         = Inr (JObj [(''nodes'', JArr ns), (''edges'', JArr es)])"
proof -
  have n1: "list_all (\<lambda>n. FlowNodeSchemaInternal h n = Valid n) ns"
    and n2: "list_all (\<lambda>n. sanitize_node h n = Inr n) ns"
    using assms(1) sanitized_node_fixed unfolding list_all_iff by blast+
  have e1: "list_all (\<lambda>e. FlowEdgeSchemaInternal e = Valid e) es"
    and e2: "list_all (\<lambda>e. sanitize_edge h e = Inr e) es"
    using assms(2) sanitized_edge_fixed unfolding list_all_iff by blast+
  have p: "parseFlowInput h (JObj [(''nodes'', JArr ns), (''edges'', JArr es)])
           = Inr (JObj [(''nodes'', JArr ns), (''edges'', JArr es)])"
    by (simp add: parseFlowInput_def JObj_def is_nullish_def)
  have o: "elements (own (JObj [(''nodes'', JArr ns), (''edges'', JArr es)]) ''nodes'') = ns"
    "elements (own (JObj [(''nodes'', JArr ns), (''edges'', JArr es)]) ''edges'') = es"
    by (simp_all add: JObj_def own_def elements_def JArr_def)
  show ?thesis
    unfolding sanitizeFlowDefinition_def p
    by (simp add: schema_fixed[OF n1 e1] o traverse_fixed[OF n2] traverse_fixed[OF e2])
qed

lemma sanitize_result:
  assumes "sanitizeFlowDefinition h input = Inr out" and "parseFlowInput h input = Inr v"
  shows "\<exists>ns es. out = JObj [(''nodes'', JArr ns), (''edges'', JArr es)]
           \<and> list_all (\<lambda>n. sanitized_node n \<and> deepClone h n = n) ns
           \<and> list_all (\<lambda>e. sanitized_edge e \<and> deepClone h e = e) es
           \<and> list_all2 (\<lambda>i n.
                 own (own n ''position'') ''x''
                   = JNum (coordinate_or_zero h (own (own i ''position'') ''x''))
               \<and> own (own n ''position'') ''y''
                   = JNum (coordinate_or_zero h (own (own i ''position'') ''y'')))
               (elements (own v ''nodes'')) ns"
proof -
  from assms obtain parsed ns es where
    parsed: "FlowDefinitionSchema h v = Valid parsed"
    and ns: "traverse (sanitize_node h) (elements (own parsed ''nodes'')) = Inr ns"
    and es: "traverse (sanitize_edge h) (elements (own parsed ''edges'')) = Inr es"
    and out: "out = JObj [(''nodes'', JArr ns), (''edges'', JArr es)]"
    unfolding sanitizeFlowDefinition_def
    by (auto split: sum.splits parsed.splits)
  from schema_Valid[OF parsed] obtain pns pes where
    pn: "own parsed ''nodes'' = JArr pns" and pe: "own parsed ''edges'' = JArr pes"
    and vn: "list_all2 (\<lambda>a b. FlowNodeSchemaInternal h a = Valid b) (elements (own v ''nodes'')) pns"
    and ve: "list_all2 (\<lambda>a b. FlowEdgeSchemaInternal a = Valid b) (elements (own v ''edges'')) pes"
    by blast
  have sn: "list_all2 (\<lambda>p n. sanitize_node h p = Inr n) pns ns"
    using ns unfolding pn traverse_Inr by (simp add: elements_def JArr_def)
  have se: "list_all2 (\<lambda>p e. sanitize_edge h p = Inr e) pes es"
    using es unfolding pe traverse_Inr by (simp add: elements_def JArr_def)
  let ?N = "\<lambda>i n. sanitized_node n \<and> deepClone h n = n
             \<and> own (own n ''position'') ''x''
                 = JNum (coordinate_or_zero h (own (own i ''position'') ''x''))
             \<and> own (own n ''position'') ''y''
                 = JNum (coordinate_or_zero h (own (own i ''position'') ''y''))"
  have "list_all2 ?N (elements (own v ''nodes'')) ns"
  proof (rule list_all2_trans[OF _ vn sn])
    fix i p n
    assume "FlowNodeSchemaInternal h i = Valid p" and "sanitize_node h p = Inr n"
    then show "?N i n" using sanitize_node_result[of h i p] by auto
  qed
  then have N: "list_all2 (\<lambda>i n. sanitized_node n \<and> deepClone h n = n) (elements (own v ''nodes'')) ns"
    and C: "list_all2 (\<lambda>i n.
                 own (own n ''position'') ''x''
                   = JNum (coordinate_or_zero h (own (own i ''position'') ''x''))
               \<and> own (own n ''position'') ''y''
                   = JNum (coordinate_or_zero h (own (own i ''position'') ''y'')))
               (elements (own v ''nodes'')) ns"
    by (auto elim: list_all2_mono)
  have "list_all2 (\<lambda>i e. sanitized_edge e \<and> deepClone h e = e) (elements (own v ''edges'')) es"
  proof (rule list_all2_trans[OF _ ve se])
    fix i p e
    assume "FlowEdgeSchemaInternal i = Valid p" and "sanitize_edge h p = Inr e"
    then show "sanitized_edge e \<and> deepClone h e = e" using sanitize_edge_result[of i p h] by auto
  qed
  then have E: "list_all (\<lambda>e. sanitized_edge e \<and> deepClone h e = e) es"
    unfolding list_all2_conv_all_nth list_all_length by simp
  from N have N': "list_all (\<lambda>n. sanitized_node n \<and> deepClone h n = n) ns"
    unfolding list_all2_conv_all_nth list_all_length by simp
  show ?thesis using out N' E C by blast
qed

lemma cloneable_empty: "uncloneable (JObject None fmempty) = False"
  by (auto simp: uncloneable_object elim: fmran'E)

lemma cloneable_fmupd:
  "\<not> uncloneable v \<Longrightarrow> \<not> uncloneable (JObject a m) \<Longrightarrow> uncloneable (JObject a (fmupd k v m)) = False"
proof -
  assume v: "\<not> uncloneable v" and m: "\<not> uncloneable (JObject a m)"
  have "\<not> uncloneable x" if "x \<in> fmran' (fmupd k v m)" for x
  proof -
    from that obtain k' where "fmlookup (fmupd k v m) k' = Some x" by (auto elim: fmran'E)
    then have "x = v \<or> fmlookup m k' = Some x" by (auto split: if_splits)
    then show ?thesis using v m uncloneable_value by blast
  qed
  then show ?thesis using m unfolding uncloneable_object by blast
qed

lemma example_node_map:
  "fmupd ''position'' P (fmupd ''data'' D (fmupd ''type'' T (fmupd ''id'' I
     (fmupd ''data'' D (fmupd ''position'' P0 (fmupd ''type'' T (fmupd ''id'' I
       (fmupd ''type'' T (fmupd ''position'' Q (fmupd ''data'' D
         (fmupd ''selected'' S fmempty)))))))))))
   = fmupd ''id'' I (fmupd ''type'' T (fmupd ''position'' P (fmupd ''data'' D
       (fmupd ''selected'' S fmempty))))"
  by (rule fmap_ext) auto

lemma example_edge_map:
  "fmupd ''targetHandle'' H2 (fmupd ''sourceHandle'' H1 (fmupd ''target'' T (fmupd ''source'' S
     (fmupd ''id'' I (fmupd ''target'' T (fmupd ''source'' S (fmupd ''id'' I
       (fmupd ''source'' S (fmupd ''target'' T fmempty)))))))))
   = fmupd ''id'' I (fmupd ''source'' S (fmupd ''target'' T (fmupd ''sourceHandle'' H1
       (fmupd ''targetHandle'' H2 fmempty))))"
  by (rule fmap_ext) auto

lemma example_sanitize:
  "sanitizeFlowDefinition example_host example_definition = Inr example_sanitized"
  by (simp add: sanitizeFlowDefinition_def parseFlowInput_def example_definition_def
        example_sanitized_def JObj_def JArr_def is_nullish_def FlowDefinitionSchema_def ctx_get_def
        array_default_def FlowNodeSchemaInternal_def FlowEdgeSchemaInternal_def string_min1_def
        node_type_enum_def flowNodeTypes_def position_schema_def optional_coordinate_def
        coordinateSchema_def js_Number_def example_host_def isFinite_def handle_schema_def
        kept_entries_def assign_all_def own_def elements_def sanitize_node_def sanitize_edge_def
        isPlainObject_def js_String_def ensureCoordinate_def spread_with_def normalizeHandle_def
        cloneable_empty cloneable_fmupd example_node_map example_edge_map)

lemma example_parse:
  "parseFlowInput example_host example_definition = Inr example_definition"
  by (simp add: parseFlowInput_def example_definition_def JObj_def is_nullish_def)

lemma js_trim_empty: "js_trim s = '''' \<longleftrightarrow> list_all is_space s"
proof -
  have "js_trim s = '''' \<longleftrightarrow> (\<forall>c\<in>set (dropWhile is_space s). is_space c)"
    unfolding js_trim_def by (simp add: dropWhile_eq_Nil_conv)
  also have "\<dots> \<longleftrightarrow> dropWhile is_space s = []"
  proof
    assume a: "\<forall>c\<in>set (dropWhile is_space s). is_space c"
    show "dropWhile is_space s = []"
    proof (rule ccontr)
      assume n: "dropWhile is_space s \<noteq> []"
      then have "\<not> is_space (hd (dropWhile is_space s))" by (rule hd_dropWhile)
      moreover have "hd (dropWhile is_space s) \<in> set (dropWhile is_space s)" using n by simp
      ultimately show False using a by blast
    qed
  qed (auto dest: set_dropWhileD)
  also have "\<dots> \<longleftrightarrow> list_all is_space s"
    by (simp add: dropWhile_eq_Nil_conv list_all_iff)
  finally show ?thesis .
qed

lemma sanitize_empty_object:
  "parseFlowInput h input = Inr (JObject None fmempty) \<Longrightarrow>
   sanitizeFlowDefinition h input = Inr emptyFlowDefinition"
  by (simp add: sanitizeFlowDefinition_def FlowDefinitionSchema_def ctx_get_def array_default_def
        kept_entries_def assign_all_def JArr_def own_def elements_def emptyFlowDefinition_def
        definition_object)

text \<open>
  C10: on a string input, \<^verbatim>\<open>sanitizeFlowDefinition\<close> returns the empty definition
  \<^verbatim>\<open>{nodes: [], edges: []}\<close> when the string is empty or has only whitespace; on a string
  with another character whose trimmed text the JSON parser rejects, it throws the
  \<^verbatim>\<open>FlowSanitizationError\<close> with the message \<^verbatim>\<open>Flow definition string must be valid JSON.\<close>
  and returns no definition.
\<close>

theorem sanitize_string_input:
  "(list_all is_space s \<longrightarrow> sanitizeFlowDefinition h (JStr s) = Inr emptyFlowDefinition)
   \<and> (\<not> list_all is_space s \<and> JSON_parse h (js_trim s) = None \<longrightarrow>
        sanitizeFlowDefinition h (JStr s)
          = Inl (FlowSanitizationError ''Flow definition string must be valid JSON.''))"
proof (intro conjI impI)
  assume "list_all is_space s"
  then have "parseFlowInput h (JStr s) = Inr (JObject None fmempty)"
    by (simp add: parseFlowInput_def js_trim_empty)
  then show "sanitizeFlowDefinition h (JStr s) = Inr emptyFlowDefinition"
    by (rule sanitize_empty_object)
next
  assume "\<not> list_all is_space s \<and> JSON_parse h (js_trim s) = None"
  then have "parseFlowInput h (JStr s)
      = Inl (FlowSanitizationError ''Flow definition string must be valid JSON.'')"
    by (simp add: parseFlowInput_def js_trim_empty)
  then show "sanitizeFlowDefinition h (JStr s)
      = Inl (FlowSanitizationError ''Flow definition string must be valid JSON.'')"
    by (simp add: sanitizeFlowDefinition_def)
qed

theorem sanitize_string_input_witness:
  "sanitizeFlowDefinition example_host (JStr '' '') = Inr emptyFlowDefinition
   \<and> sanitizeFlowDefinition example_host (JStr '' {'')
       = Inl (FlowSanitizationError ''Flow definition string must be valid JSON.'')"
proof -
  have 1: "list_all is_space '' ''" by (simp add: is_space_def)
  have 2: "\<not> list_all is_space '' {'' \<and> JSON_parse example_host (js_trim '' {'') = None"
    by (simp add: is_space_def example_host_def)
  show ?thesis
    using sanitize_string_input[of "'' ''" example_host, THEN conjunct1, THEN mp, OF 1]
      sanitize_string_input[of "'' {''" example_host, THEN conjunct2, THEN mp, OF 2]
    by simp
qed

text \<open>
  C6: when \<^verbatim>\<open>sanitizeFlowDefinition\<close> succeeds on an input, sanitizing its output gives the
  same output. The output is an object of the two arrays \<^verbatim>\<open>nodes\<close> and \<^verbatim>\<open>edges\<close>; every node of
  it has a \<^verbatim>\<open>type\<close> among the twelve node types, a \<^verbatim>\<open>position\<close> of two finite numbers \<^verbatim>\<open>x\<close> and
  \<^verbatim>\<open>y\<close> and an object as \<^verbatim>\<open>data\<close>. The coordinates of the \<open>k\<close>-th output node are those of the
  \<open>k\<close>-th input node converted to numbers, and 0 where the input node has no such
  coordinate or the conversion is not a finite number.
\<close>

theorem sanitize_idempotent:
  assumes "sanitizeFlowDefinition h input = Inr out" and "parseFlowInput h input = Inr v"
  shows "sanitizeFlowDefinition h out = Inr out
       \<and> out = JObj [(''nodes'', JArr (elements (own out ''nodes''))),
                     (''edges'', JArr (elements (own out ''edges'')))]
       \<and> list_all sanitized_node (elements (own out ''nodes''))
       \<and> list_all2 (\<lambda>i n.
             own (own n ''position'') ''x''
               = JNum (coordinate_or_zero h (own (own i ''position'') ''x''))
           \<and> own (own n ''position'') ''y''
               = JNum (coordinate_or_zero h (own (own i ''position'') ''y'')))
           (elements (own v ''nodes'')) (elements (own out ''nodes''))"
proof -
  from sanitize_result[OF assms] obtain ns es where
    out: "out = JObj [(''nodes'', JArr ns), (''edges'', JArr es)]"
    and N: "list_all (\<lambda>n. sanitized_node n \<and> deepClone h n = n) ns"
    and E: "list_all (\<lambda>e. sanitized_edge e \<and> deepClone h e = e) es"
    and C: "list_all2 (\<lambda>i n.
             own (own n ''position'') ''x''
               = JNum (coordinate_or_zero h (own (own i ''position'') ''x''))
           \<and> own (own n ''position'') ''y''
               = JNum (coordinate_or_zero h (own (own i ''position'') ''y'')))
           (elements (own v ''nodes'')) ns"
    by blast
  have o: "elements (own out ''nodes'') = ns" "elements (own out ''edges'') = es"
    unfolding out by (simp_all add: JObj_def own_def elements_def JArr_def)
  have "sanitizeFlowDefinition h out = Inr out"
    unfolding out by (rule sanitize_fixed[OF N E])
  moreover have "list_all sanitized_node ns"
    using N by (simp add: list_all_iff)
  ultimately show ?thesis using out C unfolding o by simp
qed

theorem sanitize_idempotent_witness:
  "sanitizeFlowDefinition example_host example_sanitized = Inr example_sanitized
   \<and> list_all sanitized_node (elements (own example_sanitized ''nodes''))
   \<and> own (own (hd (elements (own example_sanitized ''nodes''))) ''position'') ''x'' = JNum (Fin 0)
   \<and> own (own (hd (elements (own example_sanitized ''nodes''))) ''position'') ''y'' = JNum (Fin 0)"
proof -
  note T = sanitize_idempotent[OF example_sanitize example_parse]
  have x: "own (own (hd (elements (own example_sanitized ''nodes''))) ''position'') ''x'' = JNum (Fin 0)"
    and y: "own (own (hd (elements (own example_sanitized ''nodes''))) ''position'') ''y'' = JNum (Fin 0)"
    by (simp_all add: example_sanitized_def JObj_def JArr_def own_def elements_def)
  show ?thesis
    using T[THEN conjunct1] T[THEN conjunct2, THEN conjunct2, THEN conjunct1] x y by simp
qed

end
